theory Spec2Isabelle
  imports Complex_Main "HOL-Library.Word" "HOL-Library.FSet"
begin

unbundle bit_operations_syntax

section \<open>JavaScript values the toolkit works on\<close>

text \<open>
  A JavaScript string is modelled by the bytes of its UTF-8 encoding (\<open>string\<close>, a list of
  8-bit characters), so \<open>TextEncoder.encode\<close> and \<open>Buffer.from\<close> read the characters as
  they are. A thrown exception is a value of \<open>error\<close>; an \<open>async\<close> function that
  rejects returns \<open>Inl\<close>. An array read out of range gives \<open>undefined\<close>, written
  \<open>None\<close>.
\<close>

datatype error =
    SyntaxError
  | TypeError
  | RangeError
  | NoLeaves
  | IndexOutOfBounds int int

type_synonym byte = "8 word"

text \<open>
  The hash oracle of \<open>circomlibjs\<close> is not part of the repository. Every function that
  hashes takes it as the parameter \<open>H\<close>: \<open>H xs\<close> stands for
  \<open>poseidon.F.fromMontgomery(poseidon(xs))\<close>, the bytes of the digest.
\<close>

type_synonym hash_oracle = "int list \<Rightarrow> byte list"

definition nth_opt :: "'a list \<Rightarrow> nat \<Rightarrow> 'a option" where
  "nth_opt xs i = (if i < length xs then Some (xs ! i) else None)"

subsection \<open>\<open>toHex\<close>\<close>

definition hexDigit :: "nat \<Rightarrow> char" where
  "hexDigit d = ''0123456789abcdef'' ! d"

fun toString16 :: "nat \<Rightarrow> string" where
  "toString16 n = (if n < 16 then [hexDigit n] else toString16 (n div 16) @ [hexDigit (n mod 16)])"

declare toString16.simps [simp del]

text \<open>The characters \<open>toString(16)\<close> produces.\<close>

definition hexChars :: "char set" where
  "hexChars = set ''0123456789abcdef''"

definition padStart :: "nat \<Rightarrow> char \<Rightarrow> string \<Rightarrow> string" where
  "padStart n c s = replicate (n - length s) c @ s"

definition toHex :: "byte list \<Rightarrow> string" where
  "toHex buffer = ''0x'' @ concat (map (\<lambda>b. padStart 2 (CHR ''0'') (toString16 (unat b))) buffer)"

subsection \<open>\<open>String.prototype.toLowerCase\<close>\<close>

text \<open>
  \<open>toLowerCase\<close> on ASCII: the letters \<open>A\<close> to \<open>Z\<close> are mapped to lower case and the
  bytes of a character outside ASCII are left as they are. It stands for the built-in
  method only where the result is compared with the lower-cased output of \<open>toHex\<close>, a
  string of the characters \<open>0\<close> to \<open>9\<close>, \<open>a\<close> to \<open>f\<close> and \<open>x\<close>: no character outside ASCII
  is lower-cased to one of these, so the comparison comes out the same. On a string of
  ASCII characters it is the built-in method. The nullifier registry, which lower-cases
  arbitrary strings, takes the built-in method as a parameter.
\<close>

definition lowerChar :: "char \<Rightarrow> char" where
  "lowerChar c = (if 65 \<le> (of_char c :: nat) \<and> (of_char c :: nat) \<le> 90
                  then char_of (of_char c + (32 :: nat)) else c)"

definition toLowerCase :: "string \<Rightarrow> string" where
  "toLowerCase s = map lowerChar s"

subsection \<open>\<open>BigInt(string)\<close>: the StringToBigInt grammar\<close>

text \<open>
  White space and line terminators of ECMAScript, each as its UTF-8 bytes: TAB, LF, VT, FF,
  CR, SP, U+00A0, U+1680, U+2000 to U+200A, U+2028, U+2029, U+202F, U+205F, U+3000, U+FEFF.
\<close>

definition StrWhiteSpaceChar :: "nat list list" where
  "StrWhiteSpaceChar =
    [[0x09], [0x0A], [0x0B], [0x0C], [0x0D], [0x20],
     [0xC2, 0xA0], [0xE1, 0x9A, 0x80],
     [0xE2, 0x80, 0x80], [0xE2, 0x80, 0x81], [0xE2, 0x80, 0x82], [0xE2, 0x80, 0x83],
     [0xE2, 0x80, 0x84], [0xE2, 0x80, 0x85], [0xE2, 0x80, 0x86], [0xE2, 0x80, 0x87],
     [0xE2, 0x80, 0x88], [0xE2, 0x80, 0x89], [0xE2, 0x80, 0x8A],
     [0xE2, 0x80, 0xA8], [0xE2, 0x80, 0xA9], [0xE2, 0x80, 0xAF],
     [0xE2, 0x81, 0x9F], [0xE3, 0x80, 0x80], [0xEF, 0xBB, 0xBF]]"

definition startsWithBytes :: "nat list \<Rightarrow> nat list \<Rightarrow> bool" where
  "startsWithBytes p bs = (p \<noteq> [] \<and> take (length p) bs = p)"

function dropWhiteSpace :: "nat list list \<Rightarrow> nat list \<Rightarrow> nat list" where
  "dropWhiteSpace ws bs =
     (case find (\<lambda>p. startsWithBytes p bs) ws of
        None \<Rightarrow> bs
      | Some p \<Rightarrow> dropWhiteSpace ws (drop (length p) bs))"
  by pat_completeness auto
termination
proof (relation "measure (\<lambda>(ws, bs). length bs)")
  show "wf (measure (\<lambda>(ws, bs). length bs))" by simp
next
  fix ws :: "nat list list" and bs p :: "nat list"
  assume "find (\<lambda>p. startsWithBytes p bs) ws = Some p"
  then have "startsWithBytes p bs" by (auto simp: find_Some_iff)
  then have "p \<noteq> []" and "take (length p) bs = p" by (auto simp: startsWithBytes_def)
  then have "bs \<noteq> []" by auto
  with \<open>p \<noteq> []\<close> show "((ws, drop (length p) bs), (ws, bs)) \<in> measure (\<lambda>(ws, bs). length bs)"
    by (cases bs) auto
qed

declare dropWhiteSpace.simps [simp del]

definition trim :: "string \<Rightarrow> string" where
  "trim s =
     map char_of
       (rev (dropWhiteSpace (map rev StrWhiteSpaceChar)
          (rev (dropWhiteSpace StrWhiteSpaceChar (map of_char s)))))"

definition digitValue :: "char \<Rightarrow> nat" where
  "digitValue c =
     (let n = (of_char c :: nat) in
      if 48 \<le> n \<and> n \<le> 57 then n - 48
      else if 97 \<le> n \<and> n \<le> 122 then n - 87
      else if 65 \<le> n \<and> n \<le> 90 then n - 55
      else 36)"

definition parseDigits :: "nat \<Rightarrow> string \<Rightarrow> error + int" where
  "parseDigits base ds =
     (if ds \<noteq> [] \<and> list_all (\<lambda>c. digitValue c < base) ds
      then Inr (foldl (\<lambda>a c. a * int base + int (digitValue c)) 0 ds)
      else Inl SyntaxError)"

definition BigInt_string :: "string \<Rightarrow> error + int" where
  "BigInt_string s =
     (let t = trim s in
      if t = [] then Inr 0
      else if take 2 t = ''0x'' \<or> take 2 t = ''0X'' then parseDigits 16 (drop 2 t)
      else if take 2 t = ''0o'' \<or> take 2 t = ''0O'' then parseDigits 8 (drop 2 t)
      else if take 2 t = ''0b'' \<or> take 2 t = ''0B'' then parseDigits 2 (drop 2 t)
      else if hd t = CHR ''-'' then map_sum id uminus (parseDigits 10 (tl t))
      else if hd t = CHR ''+'' then parseDigits 10 (tl t)
      else parseDigits 10 t)"

text \<open>\<open>BigInt\<close> of an array element: \<open>BigInt(undefined)\<close> throws a TypeError.\<close>

definition BigInt_element :: "string option \<Rightarrow> error + int" where
  "BigInt_element e = (case e of None \<Rightarrow> Inl TypeError | Some s \<Rightarrow> BigInt_string s)"

subsection \<open>String to field element\<close>

text \<open>The loop \<open>for (i = 0; i < bytes.length && i < 31; i++) result = result * 256 + bytes[i]\<close>.\<close>

definition accumulateBytes :: "string \<Rightarrow> int" where
  "accumulateBytes input = foldl (\<lambda>result b. result * 256 + int (of_char b)) 0 (take 31 input)"

text \<open>\<open>stringToFieldElement\<close> of the Merkle module.\<close>

definition stringToFieldElement :: "string \<Rightarrow> error + int" where
  "stringToFieldElement input =
     (if take 2 input = ''0x'' then BigInt_string input else Inr (accumulateBytes input))"

text \<open>\<open>stringToFieldElement\<close> of the hash module: no test for a \<open>0x\<close> prefix.\<close>

definition hash_stringToFieldElement :: "string \<Rightarrow> int" where
  "hash_stringToFieldElement input = accumulateBytes input"

section \<open>Merkle tree engine\<close>

record MerkleTree =
  root :: string
  leaves :: "string list"
  levels :: "string list list"
  depth :: nat

record MerkleProof =
  leaf :: string
  index :: int
  pathElements :: "string option list"
  pathIndices :: "int list"
  proofRoot :: string

record MerkleVerifyResult =
  valid :: bool
  computedRoot :: string
  expectedRoot :: string
  verifiedLeaf :: string

text \<open>\<open>Math.ceil(Math.log2(n))\<close> for a positive integer \<open>n\<close>: the least \<open>k\<close> with \<open>n \<le> 2 ^ k\<close>.\<close>

function ceil_log2 :: "int \<Rightarrow> nat" where
  "ceil_log2 n = (if n \<le> 1 then 0 else Suc (ceil_log2 ((n + 1) div 2)))"
  by pat_completeness auto
termination
  by (relation "measure nat") auto

declare ceil_log2.simps [simp del]

lemma ceil_log2_ge: "n \<le> 2 ^ ceil_log2 n"
proof (induction n rule: ceil_log2.induct)
  case (1 n)
  show ?case
  proof (cases "n \<le> 1")
    case True
    then show ?thesis by (simp add: ceil_log2.simps)
  next
    case False
    with 1 have "(n + 1) div 2 \<le> 2 ^ ceil_log2 ((n + 1) div 2)" by simp
    then have "n \<le> 2 * 2 ^ ceil_log2 ((n + 1) div 2)" by linarith
    with False show ?thesis by (simp add: ceil_log2.simps[of n])
  qed
qed

lemma ceil_log2_le: "n \<le> 2 ^ k \<Longrightarrow> ceil_log2 n \<le> k"
proof (induction n arbitrary: k rule: ceil_log2.induct)
  case (1 n)
  show ?case
  proof (cases "n \<le> 1")
    case True
    then show ?thesis by (simp add: ceil_log2.simps)
  next
    case False
    with 1(2) obtain j where k: "k = Suc j" by (cases k) auto
    with 1(2) have "(n + 1) div 2 \<le> 2 ^ j" by simp
    with 1(1) False have "ceil_log2 ((n + 1) div 2) \<le> j" by simp
    with False k show ?thesis by (simp add: ceil_log2.simps[of n])
  qed
qed

lemma pow2_and_pred: "(2 ^ k :: nat) AND (2 ^ k - 1) = 0"
proof -
  have "(2 ^ k :: nat) - 1 = mask k" by (simp add: mask_eq_exp_minus_1)
  then have "(2 ^ k :: nat) AND (2 ^ k - 1) = take_bit k (2 ^ k)"
    by (simp add: take_bit_eq_mask)
  then show ?thesis by simp
qed

lemma and_pred_pow2: "0 < n \<Longrightarrow> (n :: nat) AND (n - 1) = 0 \<Longrightarrow> \<exists>k. n = 2 ^ k"
proof (induction n rule: less_induct)
  case (less n)
  show ?case
  proof (cases "even n")
    case True
    then obtain m where m: "n = 2 * m" by (auto elim: evenE)
    with less.prems have m0: "0 < m" by simp
    have "n - 1 = 2 * (m - 1) + 1" using m m0 by simp
    moreover have "(2 * m) AND (2 * (m - 1) + 1) = 2 * (m AND (m - 1))"
      by (subst and_rec) simp
    ultimately have "n AND (n - 1) = 2 * (m AND (m - 1))"
      using m by simp
    with less.prems have "m AND (m - 1) = 0" by simp
    with less.IH[of m] m m0 obtain k where "m = 2 ^ k" by auto
    with m have "n = 2 ^ Suc k" by simp
    then show ?thesis by blast
  next
    case False
    then obtain m where m: "n = 2 * m + 1" by (auto elim: oddE)
    have "Suc (2 * m) AND (2 * m) = 2 * m"
      by (subst and_rec) simp
    with m have "n AND (n - 1) = 2 * m" by simp
    with less.prems m have "n = 2 ^ 0" by simp
    then show ?thesis by blast
  qed
qed

subsection \<open>\<open>merkle.create\<close>\<close>

text \<open>
  The loop \<open>while (paddedLeaves.length & (paddedLeaves.length - 1)) paddedLeaves.push("0")\<close>.
  The operator \<open>&\<close> works on 32 bits; on the length of an array, below \<open>2 ^ 32\<close>, it is
  zero exactly when the conjunction of the two numbers is.
\<close>

function padToPowerOfTwo :: "string list \<Rightarrow> string list" where
  "padToPowerOfTwo paddedLeaves =
     (if (length paddedLeaves AND (length paddedLeaves - 1)) \<noteq> 0
      then padToPowerOfTwo (paddedLeaves @ [''0''])
      else paddedLeaves)"
  by pat_completeness auto
termination
proof (relation "measure (\<lambda>xs. 2 ^ ceil_log2 (int (length xs)) - length xs)")
  show "wf (measure (\<lambda>xs. 2 ^ ceil_log2 (int (length xs)) - length xs))" by simp
next
  fix paddedLeaves :: "string list"
  define n where "n = length paddedLeaves"
  define c where "c = ceil_log2 (int n)"
  define c' where "c' = ceil_log2 (int (Suc n))"
  assume "(length paddedLeaves AND (length paddedLeaves - 1)) \<noteq> 0"
  then have "n \<noteq> 2 ^ c"
    using pow2_and_pred[of c] by (auto simp: n_def)
  moreover have "int n \<le> 2 ^ c" unfolding c_def by (rule ceil_log2_ge)
  then have "n \<le> 2 ^ c" by (metis of_nat_le_iff of_nat_numeral of_nat_power)
  ultimately have lt: "n < 2 ^ c" by simp
  then have "int (Suc n) \<le> 2 ^ c" by (metis Suc_leI of_nat_le_iff of_nat_numeral of_nat_power)
  then have "c' \<le> c" unfolding c'_def by (rule ceil_log2_le)
  then have "(2::nat) ^ c' \<le> 2 ^ c" by simp
  with lt have "(2::nat) ^ c' - Suc n < 2 ^ c - n" by linarith
  then show "(paddedLeaves @ [''0''], paddedLeaves)
               \<in> measure (\<lambda>xs. 2 ^ ceil_log2 (int (length xs)) - length xs)"
    by (simp add: n_def c_def c'_def)
qed

declare padToPowerOfTwo.simps [simp del]

text \<open>Level 0: every padded leaf is encoded and hashed on its own.\<close>

fun hashLeaves :: "hash_oracle \<Rightarrow> string list \<Rightarrow> error + string list" where
  "hashLeaves H [] = Inr []"
| "hashLeaves H (l # ls) =
     (case stringToFieldElement l of
        Inl e \<Rightarrow> Inl e
      | Inr field \<Rightarrow>
          (case hashLeaves H ls of
             Inl e \<Rightarrow> Inl e
           | Inr hs \<Rightarrow> Inr (toHex (H [field]) # hs)))"

text \<open>
  The inner loop over pairs \<open>currentLevel[i]\<close>, \<open>currentLevel[i + 1]\<close>. On a level of odd
  length the last read is \<open>undefined\<close> and \<open>BigInt(undefined)\<close> throws a TypeError.
\<close>

fun nextLevel :: "hash_oracle \<Rightarrow> string list \<Rightarrow> error + string list" where
  "nextLevel H [] = Inr []"
| "nextLevel H [l] =
     (case BigInt_string l of Inl e \<Rightarrow> Inl e | Inr left \<Rightarrow> Inl TypeError)"
| "nextLevel H (l # r # rest) =
     (case BigInt_string l of
        Inl e \<Rightarrow> Inl e
      | Inr left \<Rightarrow>
          (case BigInt_string r of
             Inl e \<Rightarrow> Inl e
           | Inr right \<Rightarrow>
               (case nextLevel H rest of
                  Inl e \<Rightarrow> Inl e
                | Inr nl \<Rightarrow> Inr (toHex (H [left, right]) # nl))))"

lemma nextLevel_length: "nextLevel H xs = Inr nl \<Longrightarrow> length xs = 2 * length nl"
  by (induction H xs arbitrary: nl rule: nextLevel.induct) (auto split: sum.splits)

text \<open>
  The loop \<open>while (currentLevel.length > 1)\<close>: the levels pushed after level 0, and the
  level the loop ends on.
\<close>

function buildLevels :: "hash_oracle \<Rightarrow> string list \<Rightarrow> error + (string list list \<times> string list)" where
  "buildLevels H currentLevel =
     (if length currentLevel > 1 then
        (case nextLevel H currentLevel of
           Inl e \<Rightarrow> Inl e
         | Inr nl \<Rightarrow>
             (case buildLevels H nl of
                Inl e \<Rightarrow> Inl e
              | Inr (pushed, final) \<Rightarrow> Inr (nl # pushed, final)))
      else Inr ([], currentLevel))"
  by pat_completeness auto
termination
proof (relation "measure (\<lambda>(H, xs). length xs)")
  show "wf (measure (\<lambda>(H, xs). length xs))" by simp
next
  fix H :: hash_oracle and currentLevel nl :: "string list"
  assume "1 < length currentLevel" and "nextLevel H currentLevel = Inr nl"
  then show "((H, nl), (H, currentLevel)) \<in> measure (\<lambda>(H, xs). length xs)"
    using nextLevel_length[of H currentLevel nl] by (cases nl) auto
qed

declare buildLevels.simps [simp del]

text \<open>
  \<open>merkle.create\<close>. The root is \<open>currentLevel[0]\<close> of the level the loop ends on; \<open>depth\<close> is
  \<open>Math.log2\<close> of the padded length, a power of two.
\<close>

definition merkle_create :: "hash_oracle \<Rightarrow> string list \<Rightarrow> error + MerkleTree" where
  "merkle_create H leaves0 =
     (if length leaves0 = 0 then Inl NoLeaves
      else
        let padded = padToPowerOfTwo leaves0;
            paddedLeaves = (if length padded = 1 then padded @ [''0''] else padded)
        in case hashLeaves H paddedLeaves of
             Inl e \<Rightarrow> Inl e
           | Inr level0 \<Rightarrow>
               (case buildLevels H level0 of
                  Inl e \<Rightarrow> Inl e
                | Inr (pushed, final) \<Rightarrow>
                    Inr \<lparr> root = final ! 0, leaves = paddedLeaves,
                          levels = level0 # pushed, depth = ceil_log2 (int (length paddedLeaves)) \<rparr>))"

text \<open>The leaves of the tree: the input, then sentinel leaves up to a power of two that is at least 2.\<close>

definition paddedLeaves_of :: "string list \<Rightarrow> string list" where
  "paddedLeaves_of ls =
     (let padded = padToPowerOfTwo ls in if length padded = 1 then padded @ [''0''] else padded)"

subsection \<open>\<open>merkle.proof\<close>\<close>

text \<open>
  The loop \<open>for (level = 0; level < tree.levels.length - 1; level++)\<close>, on the levels from
  \<open>level\<close> on: the sibling read \<open>tree.levels[level][siblingIndex]\<close> may be \<open>undefined\<close>.
\<close>

fun proofPath :: "string list list \<Rightarrow> nat \<Rightarrow> string option list \<times> int list" where
  "proofPath (lvl # nxt # rest) currentIndex =
     (let isRightNode = (currentIndex mod 2 = 1);
          siblingIndex = (if isRightNode then currentIndex - 1 else currentIndex + 1);
          (pes, pis) = proofPath (nxt # rest) (currentIndex div 2)
      in (nth_opt lvl siblingIndex # pes, (if isRightNode then 1 else 0) # pis))"
| "proofPath _ currentIndex = ([], [])"

definition merkle_proof :: "MerkleTree \<Rightarrow> int \<Rightarrow> error + MerkleProof" where
  "merkle_proof tree i =
     (if i < 0 \<or> i \<ge> int (length (leaves tree))
      then Inl (IndexOutOfBounds i (int (length (leaves tree)) - 1))
      else
        let (pes, pis) = proofPath (levels tree) (nat i)
        in Inr \<lparr> leaf = leaves tree ! nat i, index = i, pathElements = pes,
                 pathIndices = pis, proofRoot = root tree \<rparr>)"

subsection \<open>\<open>merkle.verify\<close>\<close>

text \<open>
  The loop over \<open>proof.pathElements\<close>; \<open>pis\<close> holds \<open>proof.pathIndices\<close> from position \<open>i\<close>
  on, so \<open>proof.pathIndices[i] === 0\<close> asks for a first element that is \<open>0\<close>.
\<close>

fun verifyPath :: "hash_oracle \<Rightarrow> string \<Rightarrow> string option list \<Rightarrow> int list \<Rightarrow> error + string" where
  "verifyPath H currentHex [] pis = Inr currentHex"
| "verifyPath H currentHex (pe # pes) pis =
     (case BigInt_element pe of
        Inl e \<Rightarrow> Inl e
      | Inr sibling \<Rightarrow>
          (case BigInt_string currentHex of
             Inl e \<Rightarrow> Inl e
           | Inr current \<Rightarrow>
               (let isLeft = (case pis of [] \<Rightarrow> False | p # _ \<Rightarrow> p = 0);
                    left = (if isLeft then current else sibling);
                    right = (if isLeft then sibling else current)
                in verifyPath H (toHex (H [left, right])) pes (tl pis))))"

definition merkle_verify :: "hash_oracle \<Rightarrow> string \<Rightarrow> string \<Rightarrow> MerkleProof \<Rightarrow> error + MerkleVerifyResult" where
  "merkle_verify H root0 leaf0 prf =
     (case stringToFieldElement leaf0 of
        Inl e \<Rightarrow> Inl e
      | Inr leafField \<Rightarrow>
          (case verifyPath H (toHex (H [leafField])) (pathElements prf) (pathIndices prf) of
             Inl e \<Rightarrow> Inl e
           | Inr currentHex \<Rightarrow>
               Inr \<lparr> valid = (toLowerCase currentHex = toLowerCase root0),
                     computedRoot = currentHex, expectedRoot = root0, verifiedLeaf = leaf0 \<rparr>))"

subsection \<open>The recomputation in the words of the spec\<close>

text \<open>
  The spec's words for the recomputation in \<open>merkle.verify\<close>: a running hash that starts
  from the hash of the encoded leaf and, for each path element \<open>i\<close>, becomes
  \<open>hash(current, sibling)\<close> when \<open>pathIndices[i]\<close> is \<open>0\<close> and \<open>hash(sibling, current)\<close>
  otherwise. A digest enters the next hash as the number its bytes spell, most
  significant byte first.
\<close>

definition digestValue :: "byte list \<Rightarrow> int" where
  "digestValue d = foldl (\<lambda>a b. a * 256 + int (unat b)) 0 d"

fun recomputedRoot :: "hash_oracle \<Rightarrow> byte list \<Rightarrow> int list \<Rightarrow> int list \<Rightarrow> nat \<Rightarrow> byte list" where
  "recomputedRoot H current [] indices i = current"
| "recomputedRoot H current (sibling # rest) indices i =
     recomputedRoot H
       (if nth_opt indices i = Some 0 then H [digestValue current, sibling]
        else H [sibling, digestValue current])
       rest indices (Suc i)"

section \<open>Range proof engine\<close>

text \<open>
  The numbers of the range engine are modelled as integers: the values, bounds and bits of
  the claims are integers, and \<open>BigInt(value)\<close> throws on any other number. Rounding of
  numbers beyond \<open>2 ^ 53\<close> is not modelled. The random bytes that \<open>crypto.randomBytes(32)\<close>
  returns are the parameter \<open>rnd\<close>.
\<close>

record RangeProof =
  valueCommitment :: string
  proofMin :: int
  proofMax :: int
  bits :: "int list"
  bitCommitments :: "string list"
  salt :: string
  proofValid :: bool

record RangeChecks =
  bitsAreBinary :: bool
  valueInRange :: bool
  commitmentsMatch :: bool

record RangeVerifyResult =
  resultValid :: bool
  resultMin :: int
  resultMax :: int
  checks :: RangeChecks

text \<open>\<open>Buffer.prototype.toString("hex")\<close>: two lower-case hexadecimal digits for each byte.\<close>

definition hexOfBuffer :: "byte list \<Rightarrow> string" where
  "hexOfBuffer buffer = concat (map (\<lambda>b. [hexDigit (unat b div 16), hexDigit (unat b mod 16)]) buffer)"

definition generateSalt :: "byte list \<Rightarrow> string" where
  "generateSalt rnd = ''0x'' @ hexOfBuffer rnd"

text \<open>
  \<open>(normalizedValue >> i) & 1\<close> on 32-bit integers: the left operand is taken to a signed
  32-bit integer, the shift count modulo 32, and the shift keeps the sign.
\<close>

definition bitAt :: "int \<Rightarrow> nat \<Rightarrow> int" where
  "bitAt normalizedValue i = (drop_bit (i mod 32) (signed_take_bit 31 normalizedValue)) AND 1"

definition range_prove :: "hash_oracle \<Rightarrow> byte list \<Rightarrow> int \<Rightarrow> int \<Rightarrow> int \<Rightarrow> error + RangeProof" where
  "range_prove H rnd v lo hi =
     (if v < lo \<or> v > hi then
        Inr \<lparr> valueCommitment = ''0x0'', proofMin = lo, proofMax = hi, bits = [],
              bitCommitments = [], salt = ''0x0'', proofValid = False \<rparr>
      else
        let rangeSize = hi - lo;
            bitWidth = max 1 (ceil_log2 (rangeSize + 1));
            normalizedValue = v - lo;
            salt0 = generateSalt rnd
        in case BigInt_string salt0 of
             Inl e \<Rightarrow> Inl e
           | Inr saltBigInt \<Rightarrow>
               Inr \<lparr> valueCommitment = toHex (H [v, saltBigInt]), proofMin = lo, proofMax = hi,
                     bits = map (\<lambda>i. bitAt normalizedValue i) [0..<bitWidth],
                     bitCommitments =
                       map (\<lambda>i. toHex (H [bitAt normalizedValue i, saltBigInt, int i])) [0..<bitWidth],
                     salt = salt0, proofValid = True \<rparr>)"

text \<open>The loop \<open>normalizedValue += proof.bits[i] * 2 ** i\<close>, from position \<open>i\<close> on.\<close>

fun reconstruct :: "nat \<Rightarrow> int list \<Rightarrow> int" where
  "reconstruct i [] = 0"
| "reconstruct i (b # bs) = b * 2 ^ i + reconstruct (Suc i) bs"

text \<open>
  The loop over the bit commitments, from position \<open>i\<close> on: it stops at the first
  mismatch, and \<open>proof.bitCommitments[i].toLowerCase()\<close> throws a TypeError where the
  array has no element.
\<close>

fun bitCommitmentsMatch :: "hash_oracle \<Rightarrow> int \<Rightarrow> nat \<Rightarrow> int list \<Rightarrow> string list \<Rightarrow> error + bool" where
  "bitCommitmentsMatch H saltBigInt i [] cs = Inr True"
| "bitCommitmentsMatch H saltBigInt i (b # bs) [] = Inl TypeError"
| "bitCommitmentsMatch H saltBigInt i (b # bs) (c # cs) =
     (if toLowerCase (toHex (H [b, saltBigInt, int i])) \<noteq> toLowerCase c then Inr False
      else bitCommitmentsMatch H saltBigInt (Suc i) bs cs)"

definition rejected :: "RangeProof \<Rightarrow> bool \<Rightarrow> RangeVerifyResult" where
  "rejected p binary =
     \<lparr> resultValid = False, resultMin = proofMin p, resultMax = proofMax p,
       checks = \<lparr> bitsAreBinary = binary, valueInRange = False, commitmentsMatch = False \<rparr> \<rparr>"

definition range_verify :: "hash_oracle \<Rightarrow> RangeProof \<Rightarrow> error + RangeVerifyResult" where
  "range_verify H p =
     (if \<not> proofValid p \<or> length (bits p) = 0 then Inr (rejected p False)
      else if \<not> list_all (\<lambda>b. b = 0 \<or> b = 1) (bits p) then Inr (rejected p False)
      else
        let normalizedValue = reconstruct 0 (bits p);
            reconstructedValue = normalizedValue + proofMin p
        in if \<not> (reconstructedValue \<ge> proofMin p \<and> reconstructedValue \<le> proofMax p)
           then Inr (rejected p True)
           else
             (case BigInt_string (salt p) of
                Inl e \<Rightarrow> Inl e
              | Inr saltBigInt \<Rightarrow>
                  (case bitCommitmentsMatch H saltBigInt 0 (bits p) (bitCommitments p) of
                     Inl e \<Rightarrow> Inl e
                   | Inr m \<Rightarrow>
                       let matches =
                             (m \<and> toLowerCase (toHex (H [reconstructedValue, saltBigInt]))
                                   = toLowerCase (valueCommitment p))
                       in Inr \<lparr> resultValid = matches, resultMin = proofMin p,
                                resultMax = proofMax p,
                                checks = \<lparr> bitsAreBinary = True, valueInRange = True,
                                           commitmentsMatch = matches \<rparr> \<rparr>)))"

text \<open>\<open>proveGreaterThan\<close> and \<open>proveLessThan\<close>, with \<open>MAX_SAFE = 2 ** 32\<close>.\<close>

definition range_proveGreaterThan :: "hash_oracle \<Rightarrow> byte list \<Rightarrow> int \<Rightarrow> int \<Rightarrow> error + RangeProof" where
  "range_proveGreaterThan H rnd v threshold = range_prove H rnd v (threshold + 1) (2 ^ 32)"

definition range_proveLessThan :: "hash_oracle \<Rightarrow> byte list \<Rightarrow> int \<Rightarrow> int \<Rightarrow> error + RangeProof" where
  "range_proveLessThan H rnd v threshold = range_prove H rnd v 0 (threshold - 1)"

section \<open>Commitment scheme\<close>

text \<open>
  A JavaScript number is not-a-number, an infinity or a finite value; the finite values
  are modelled by rationals. A committed value is a string, a number or a bigint.
\<close>

datatype number = NaN | PosInfinity | NegInfinity | Finite rat

datatype jsvalue = VString string | VNumber number | VBigInt int

text \<open>\<open>BigInt(number)\<close> throws a RangeError unless the number is an integer.\<close>

definition BigInt_number :: "number \<Rightarrow> error + int" where
  "BigInt_number n =
     (case n of
        Finite q \<Rightarrow> if of_int \<lfloor>q\<rfloor> = q then Inr \<lfloor>q\<rfloor> else Inl RangeError
      | _ \<Rightarrow> Inl RangeError)"

definition hexToFieldElement :: "string \<Rightarrow> error + int" where
  "hexToFieldElement hex =
     (let cleanHex = (if take 2 hex = ''0x'' then drop 2 hex else hex)
      in BigInt_string (''0x'' @ cleanHex))"

text \<open>
  \<open>valueToFieldElement\<close>. The built-in conversion \<open>Number(value)\<close> of a string is the
  parameter \<open>toNumber\<close>; on a finite number \<open>BigInt(Math.floor(num))\<close> is its floor.
\<close>

definition valueToFieldElement :: "(string \<Rightarrow> number) \<Rightarrow> jsvalue \<Rightarrow> error + int" where
  "valueToFieldElement toNumber v =
     (case v of
        VBigInt b \<Rightarrow> Inr b
      | VNumber n \<Rightarrow> BigInt_number n
      | VString s \<Rightarrow>
          if take 2 s = ''0x'' then BigInt_string s
          else (case toNumber s of
                  Finite q \<Rightarrow> Inr \<lfloor>q\<rfloor>
                | _ \<Rightarrow> Inr (accumulateBytes s)))"

definition padEnd :: "nat \<Rightarrow> char \<Rightarrow> string \<Rightarrow> string" where
  "padEnd n c s = s @ replicate (n - length s) c"

text \<open>
  The salt of a secret,
  \<open>"0x" + Buffer.from(secret).toString("hex").padEnd(64, "0").slice(0, 64)\<close>, written
  out in \<open>commit.create\<close> and again in \<open>commit.reveal\<close>.
\<close>

definition saltOfSecret :: "string \<Rightarrow> string" where
  "saltOfSecret secret = ''0x'' @ take 64 (padEnd 64 (CHR ''0'') (hexOfBuffer (map of_char secret)))"

text \<open>
  The records keep the fields the results are read by; \<open>value\<close>, \<open>revealedValue\<close>
  (\<open>value.toString()\<close>) and \<open>algorithm\<close> are for display and are left out.
\<close>

record CommitmentResult =
  commitment :: string
  commitSalt :: string

record RevealResult =
  revealValid :: bool
  revealCommitment :: string
  revealSalt :: string

record VerifyResult =
  verifyValid :: bool
  verifyCommitment :: string
  expectedCommitment :: string

text \<open>
  \<open>commit.create\<close>: the test \<open>secret ? ... : generateSalt()\<close> takes the random salt when
  \<open>secret\<close> is \<open>undefined\<close> (\<open>None\<close>) and also when it is the empty string.
\<close>

definition commit_create ::
  "hash_oracle \<Rightarrow> (string \<Rightarrow> number) \<Rightarrow> byte list \<Rightarrow> jsvalue \<Rightarrow> string option \<Rightarrow> error + CommitmentResult" where
  "commit_create H toNumber rnd v secret =
     (let salt0 = (case secret of
                     None \<Rightarrow> generateSalt rnd
                   | Some s \<Rightarrow> if s \<noteq> [] then saltOfSecret s else generateSalt rnd)
      in case valueToFieldElement toNumber v of
           Inl e \<Rightarrow> Inl e
         | Inr valueField \<Rightarrow>
             (case hexToFieldElement salt0 of
                Inl e \<Rightarrow> Inl e
              | Inr saltField \<Rightarrow>
                  Inr \<lparr> commitment = toHex (H [valueField, saltField]), commitSalt = salt0 \<rparr>))"

definition commit_reveal ::
  "hash_oracle \<Rightarrow> (string \<Rightarrow> number) \<Rightarrow> string \<Rightarrow> jsvalue \<Rightarrow> string \<Rightarrow> error + RevealResult" where
  "commit_reveal H toNumber c v secret =
     (let salt0 = saltOfSecret secret
      in case valueToFieldElement toNumber v of
           Inl e \<Rightarrow> Inl e
         | Inr valueField \<Rightarrow>
             (case hexToFieldElement salt0 of
                Inl e \<Rightarrow> Inl e
              | Inr saltField \<Rightarrow>
                  Inr \<lparr> revealValid =
                          (toLowerCase (toHex (H [valueField, saltField])) = toLowerCase c),
                        revealCommitment = c, revealSalt = salt0 \<rparr>))"

definition commit_verify ::
  "hash_oracle \<Rightarrow> (string \<Rightarrow> number) \<Rightarrow> string \<Rightarrow> jsvalue \<Rightarrow> string \<Rightarrow> error + VerifyResult" where
  "commit_verify H toNumber c v salt0 =
     (case valueToFieldElement toNumber v of
        Inl e \<Rightarrow> Inl e
      | Inr valueField \<Rightarrow>
          (case hexToFieldElement salt0 of
             Inl e \<Rightarrow> Inl e
           | Inr saltField \<Rightarrow>
               Inr \<lparr> verifyValid =
                       (toLowerCase (toHex (H [valueField, saltField])) = toLowerCase c),
                     verifyCommitment = c,
                     expectedCommitment = toHex (H [valueField, saltField]) \<rparr>))"

text \<open>
  The spec's words for the string encoding: the bytes read as a big-endian number in
  base 256.
\<close>

definition bigEndianValue :: "string \<Rightarrow> int" where
  "bigEndianValue bs = (\<Sum>i < length bs. int (of_char (bs ! i)) * 256 ^ (length bs - 1 - i))"

section \<open>Nullifier registry\<close>

text \<open>
  The set is the one mutable object: every operation on it returns the set as it leaves
  it. The module has its own \<open>stringToFieldElement\<close>.
\<close>

definition nullifier_stringToFieldElement :: "string \<Rightarrow> error + int" where
  "nullifier_stringToFieldElement input =
     (if take 2 input = ''0x'' then BigInt_string input else Inr (accumulateBytes input))"

record NullifierResult =
  nullifier :: string
  nullifierScope :: string

record NullifierSet =
  nullifiers :: "string fset"
  scope :: string
  setSize :: nat

definition nullifier_create :: "hash_oracle \<Rightarrow> string \<Rightarrow> string \<Rightarrow> error + NullifierResult" where
  "nullifier_create H secret sc =
     (case nullifier_stringToFieldElement secret of
        Inl e \<Rightarrow> Inl e
      | Inr secretField \<Rightarrow>
          (case nullifier_stringToFieldElement sc of
             Inl e \<Rightarrow> Inl e
           | Inr scopeField \<Rightarrow>
               Inr \<lparr> nullifier = toHex (H [secretField, scopeField]), nullifierScope = sc \<rparr>))"

definition nullifier_createSet :: "string \<Rightarrow> NullifierSet" where
  "nullifier_createSet sc = \<lparr> nullifiers = {||}, scope = sc, setSize = 0 \<rparr>"

text \<open>
  \<open>addToSet\<close> and \<open>isInSet\<close>. The built-in \<open>String.prototype.toLowerCase\<close>, which
  lower-cases all of Unicode, is the parameter \<open>toLower\<close>.
\<close>

definition nullifier_addToSet ::
  "(string \<Rightarrow> string) \<Rightarrow> NullifierSet \<Rightarrow> string \<Rightarrow> bool \<times> NullifierSet" where
  "nullifier_addToSet toLower set0 nullifierHash =
     (let normalizedHash = toLower nullifierHash
      in if normalizedHash |\<in>| nullifiers set0 then (False, set0)
         else (True, set0 \<lparr> nullifiers := finsert normalizedHash (nullifiers set0),
                            setSize := fcard (finsert normalizedHash (nullifiers set0)) \<rparr>))"

definition nullifier_isInSet ::
  "(string \<Rightarrow> string) \<Rightarrow> NullifierSet \<Rightarrow> string \<Rightarrow> bool \<times> NullifierSet" where
  "nullifier_isInSet toLower set0 nullifierHash = (toLower nullifierHash |\<in>| nullifiers set0, set0)"

text \<open>A run of \<open>addToSet\<close> calls on one set: the answers, and the set after the last call.\<close>

fun addAll :: "(string \<Rightarrow> string) \<Rightarrow> NullifierSet \<Rightarrow> string list \<Rightarrow> bool list \<times> NullifierSet" where
  "addAll toLower set0 [] = ([], set0)"
| "addAll toLower set0 (h # hs) =
     (let (r, set1) = nullifier_addToSet toLower set0 h; (rs, set2) = addAll toLower set1 hs
      in (r # rs, set2))"

section \<open>Stand-ins for running the model\<close>

text \<open>
  A stand-in for the external oracle, used only where the model is run on a concrete
  input: 32 bytes, the last one computed from the inputs.
\<close>

definition demo_oracle :: hash_oracle where
  "demo_oracle xs = replicate 31 0 @ [word_of_int (foldl (\<lambda>a x. 3 * a + x + 1) 0 xs)]"

text \<open>
  A stand-in for \<open>Number(string)\<close>, used only where the model is run on a concrete input:
  a non-empty string of decimal digits is its number, any other string is not a number.
  It is applied below to digit strings and to strings of letters only, where this is what
  \<open>Number\<close> returns.
\<close>

definition demo_Number :: "string \<Rightarrow> number" where
  "demo_Number s =
     (if s \<noteq> [] \<and> list_all (\<lambda>c. digitValue c < 10) s
      then Finite (of_int (foldl (\<lambda>a c. a * 10 + int (digitValue c)) 0 s))
      else NaN)"

section \<open>Properties of the string helpers\<close>

lemma hexDigit_in: "d < 16 \<Longrightarrow> hexDigit d \<in> hexChars"
proof -
  assume "d < 16"
  then have "d \<in> set [0..<16]" by simp
  then show ?thesis
    unfolding hexChars_def hexDigit_def upt_rec_numeral by (auto simp: nth_Cons')
qed

lemma byteHex_eq:
  "padStart 2 (CHR ''0'') (toString16 (unat (b :: byte))) =
     [hexDigit (unat b div 16), hexDigit (unat b mod 16)]"
proof -
  have lt: "unat b < 256" using unsigned_less[of b] by simp
  show ?thesis
  proof (cases "unat b < 16")
    case True
    then show ?thesis by (simp add: toString16.simps padStart_def hexDigit_def)
  next
    case False
    moreover from lt have "unat b div 16 < 16" by simp
    ultimately show ?thesis
      by (simp add: toString16.simps[of "unat b"] toString16.simps[of "unat b div 16"] padStart_def)
  qed
qed

lemma toHex_Nil: "toHex [] = ''0x''"
  by (simp add: toHex_def)

lemma toHex_Cons:
  "toHex (b # bs) = ''0x'' @ [hexDigit (unat b div 16), hexDigit (unat b mod 16)] @ drop 2 (toHex bs)"
  by (simp add: toHex_def byteHex_eq)

lemma drop2_toHex: "drop 2 (toHex bs) = concat (map (\<lambda>b. [hexDigit (unat b div 16), hexDigit (unat b mod 16)]) bs)"
  by (simp add: toHex_def byteHex_eq)

lemma take2_toHex: "take 2 (toHex bs) = ''0x''"
  by (simp add: toHex_def)

lemma set_toHex: "set (toHex bs) = {CHR ''0'', CHR ''x''} \<union> set (drop 2 (toHex bs))"
  by (simp add: toHex_def)

lemma unat_byte_div: "unat (b :: byte) div 16 < 16"
proof -
  have "unat b < 2 ^ LENGTH(8)" by (rule unsigned_less)
  then show ?thesis by simp
qed

lemma digits_toHex: "set (drop 2 (toHex bs)) \<subseteq> hexChars"
  by (auto simp: drop2_toHex hexDigit_in unat_byte_div)

lemma digitValue_hex: "c \<in> hexChars \<Longrightarrow> digitValue c < 16"
  by (auto simp: hexChars_def digitValue_def)

lemma ws_head:
  "p \<in> set StrWhiteSpaceChar \<union> set (map rev StrWhiteSpaceChar) \<Longrightarrow> startsWithBytes p (b # rest)
     \<Longrightarrow> b \<le> 32 \<or> 128 \<le> b"
  unfolding StrWhiteSpaceChar_def startsWithBytes_def by auto

lemma hex_ascii: "c \<in> insert (CHR ''x'') hexChars \<Longrightarrow> 32 < (of_char c :: nat) \<and> (of_char c :: nat) < 128"
  unfolding hexChars_def by auto

lemma no_ws_prefix:
  "c \<in> insert (CHR ''x'') hexChars \<Longrightarrow> p \<in> set StrWhiteSpaceChar \<union> set (map rev StrWhiteSpaceChar)
     \<Longrightarrow> \<not> startsWithBytes p (of_char c # rest)"
  using ws_head[of p "of_char c" rest] hex_ascii[of c] by auto

lemma dropWhiteSpace_id:
  "\<forall>p\<in>set ws. \<not> startsWithBytes p bs \<Longrightarrow> dropWhiteSpace ws bs = bs"
  by (simp add: dropWhiteSpace.simps find_None_iff[THEN iffD2])

lemma trim_plain:
  assumes "s \<noteq> []" and "set s \<subseteq> insert (CHR ''x'') hexChars"
  shows "trim s = s"
proof -
  from assms obtain c cs where s: "s = c # cs" and c: "c \<in> insert (CHR ''x'') hexChars"
    by (cases s) auto
  from assms(1) obtain d ds where r: "rev s = d # ds" by (cases "rev s") auto
  then have "d \<in> set (rev s)" by simp
  with assms(2) have d: "d \<in> insert (CHR ''x'') hexChars" by auto
  have 1: "dropWhiteSpace StrWhiteSpaceChar (map of_char s) = map of_char s"
    using no_ws_prefix[OF c] by (intro dropWhiteSpace_id) (simp add: s)
  have "rev (map of_char s) = (of_char d :: nat) # map of_char ds"
    using r by (simp add: rev_map)
  then have 2: "dropWhiteSpace (map rev StrWhiteSpaceChar) (rev (map of_char s)) = rev (map of_char s)"
    using no_ws_prefix[OF d] by (intro dropWhiteSpace_id) simp
  show ?thesis by (simp add: trim_def 1 2 comp_def)
qed

lemma BigInt_toHex: "bs \<noteq> [] \<Longrightarrow> \<exists>v. BigInt_string (toHex bs) = Inr v"
proof -
  assume ne: "bs \<noteq> []"
  have sub: "set (toHex bs) \<subseteq> insert (CHR ''x'') hexChars"
  proof -
    have "CHR ''0'' \<in> hexChars" by (simp add: hexChars_def)
    with digits_toHex[of bs] show ?thesis unfolding set_toHex by blast
  qed
  have "toHex bs \<noteq> []" by (simp add: toHex_def)
  with sub have t: "trim (toHex bs) = toHex bs" by (rule trim_plain[rotated])
  from ne have "drop 2 (toHex bs) \<noteq> []" by (cases bs) (auto simp: drop2_toHex)
  moreover have "list_all (\<lambda>c. digitValue c < 16) (drop 2 (toHex bs))"
    using digits_toHex[of bs] by (auto simp: list_all_iff digitValue_hex)
  ultimately have "\<exists>v. parseDigits 16 (drop 2 (toHex bs)) = Inr v"
    by (simp add: parseDigits_def)
  moreover have "BigInt_string (toHex bs) = parseDigits 16 (drop 2 (toHex bs))"
    unfolding BigInt_string_def Let_def t take2_toHex using \<open>toHex bs \<noteq> []\<close>
    by (simp only: if_True if_False simp_thms)
  ultimately show ?thesis by simp
qed

section \<open>Properties of the Merkle tree engine\<close>

lemma hashLeaves_Inr:
  "hashLeaves H ls = Inr hs \<Longrightarrow>
     length hs = length ls \<and>
     (\<forall>i < length ls. \<exists>f. stringToFieldElement (ls ! i) = Inr f \<and> hs ! i = toHex (H [f]))"
proof (induction ls arbitrary: hs)
  case Nil
  then show ?case by simp
next
  case (Cons l ls)
  from Cons.prems obtain f hs' where f: "stringToFieldElement l = Inr f"
    and hs': "hashLeaves H ls = Inr hs'" and hs: "hs = toHex (H [f]) # hs'"
    by (auto split: sum.splits)
  from Cons.IH[OF hs'] f hs show ?case
    by (auto simp: nth_Cons split: nat.splits)
qed

lemma hashLeaves_Inl:
  "hashLeaves H ls = Inl e \<Longrightarrow> \<exists>l \<in> set ls. stringToFieldElement l = Inl e"
  by (induction ls) (auto split: sum.splits)

lemma hashLeaves_total:
  "(\<And>l. l \<in> set ls \<Longrightarrow> \<exists>f. stringToFieldElement l = Inr f) \<Longrightarrow> \<exists>hs. hashLeaves H ls = Inr hs"
  by (induction ls) (auto split: sum.splits, force)

lemma nextLevel_nth:
  "nextLevel H xs = Inr nl \<Longrightarrow> j < length nl \<Longrightarrow>
     \<exists>l r. BigInt_string (xs ! (2 * j)) = Inr l \<and> BigInt_string (xs ! (2 * j + 1)) = Inr r \<and>
           nl ! j = toHex (H [l, r])"
proof (induction H xs arbitrary: nl j rule: nextLevel.induct)
  case (3 H l r rest)
  from "3.prems"(1) obtain lv rv nl' where lv: "BigInt_string l = Inr lv" and rv: "BigInt_string r = Inr rv"
    and nl': "nextLevel H rest = Inr nl'" and nl: "nl = toHex (H [lv, rv]) # nl'"
    by (auto split: sum.splits)
  show ?case
  proof (cases j)
    case 0
    with lv rv nl show ?thesis by simp
  next
    case (Suc j')
    with "3.prems"(2) nl have "j' < length nl'" by simp
    from "3.IH"[OF lv rv nl' this] Suc nl show ?thesis by simp
  qed
qed (auto split: sum.splits)

lemma nextLevel_total:
  "even (length xs) \<Longrightarrow> (\<And>x. x \<in> set xs \<Longrightarrow> \<exists>v. BigInt_string x = Inr v) \<Longrightarrow>
     \<exists>nl. nextLevel H xs = Inr nl"
proof (induction H xs rule: nextLevel.induct)
  case (3 H l r rest)
  from "3.prems"(2)[of l] obtain lv where lv: "BigInt_string l = Inr lv" by auto
  from "3.prems"(2)[of r] obtain rv where rv: "BigInt_string r = Inr rv" by auto
  from "3.prems" have "\<exists>nl. nextLevel H rest = Inr nl"
    by (intro "3.IH"[OF lv rv]) auto
  with lv rv show ?case by auto
qed auto

lemma nextLevel_set:
  "nextLevel H xs = Inr nl \<Longrightarrow> x \<in> set nl \<Longrightarrow> \<exists>ys. x = toHex (H ys)"
  by (induction H xs arbitrary: nl rule: nextLevel.induct) (auto split: sum.splits)

text \<open>The path that \<open>merkle.proof\<close> records leads \<open>merkle.verify\<close> from a node to the root.\<close>

lemma path_round_trip:
  "buildLevels H cur = Inr (pushed, final) \<Longrightarrow> i < length cur \<Longrightarrow>
     verifyPath H (cur ! i) (fst (proofPath (cur # pushed) i)) (snd (proofPath (cur # pushed) i))
       = Inr (final ! 0)"
proof (induction H cur arbitrary: pushed final i rule: buildLevels.induct)
  case (1 H cur)
  show ?case
  proof (cases "length cur > 1")
    case False
    with "1.prems" have "pushed = []" "final = cur" "i = 0"
      by (auto simp: buildLevels.simps[of H cur])
    then show ?thesis by simp
  next
    case True
    with "1.prems"(1) obtain nl pushed' where nl: "nextLevel H cur = Inr nl"
      and bl: "buildLevels H nl = Inr (pushed', final)" and pushed: "pushed = nl # pushed'"
      by (auto simp: buildLevels.simps[of H cur] split: sum.splits)
    from nextLevel_length[OF nl] have len: "length cur = 2 * length nl" .
    with "1.prems"(2) have j: "i div 2 < length nl" by simp
    from nextLevel_nth[OF nl j] obtain l r where
      l: "BigInt_string (cur ! (2 * (i div 2))) = Inr l" and
      r: "BigInt_string (cur ! (2 * (i div 2) + 1)) = Inr r" and
      h: "nl ! (i div 2) = toHex (H [l, r])" by blast
    have IH: "verifyPath H (nl ! (i div 2)) (fst (proofPath (nl # pushed') (i div 2)))
                (snd (proofPath (nl # pushed') (i div 2))) = Inr (final ! 0)"
      by (rule "1.IH"[OF True nl bl j])
    show ?thesis
    proof (cases "i mod 2 = 1")
      case True
      then have i: "i = 2 * (i div 2) + 1" by presburger
      then have sib: "i - 1 = 2 * (i div 2)" by simp
      have "i - 1 < length cur" using "1.prems"(2) by simp
      with True l r h IH i sib show ?thesis
        by (simp add: pushed nth_opt_def BigInt_element_def split_beta Let_def)
    next
      case False
      then have i: "i = 2 * (i div 2)" by presburger
      then have "i + 1 < length cur" using "1.prems"(2) len by presburger
      with False l r h IH i show ?thesis
        by (simp add: pushed nth_opt_def BigInt_element_def split_beta Let_def)
    qed
  qed
qed

lemma padToPowerOfTwo_shape:
  "\<exists>m. padToPowerOfTwo xs = xs @ replicate m ''0''"
proof (induction xs rule: padToPowerOfTwo.induct)
  case (1 xs)
  show ?case
  proof (cases "(length xs AND (length xs - 1)) \<noteq> 0")
    case True
    with 1 obtain m where "padToPowerOfTwo (xs @ [''0'']) = (xs @ [''0'']) @ replicate m ''0''"
      by blast
    with True have "padToPowerOfTwo xs = xs @ replicate (Suc m) ''0''"
      by (simp add: padToPowerOfTwo.simps[of xs] replicate_app_Cons_same)
    then show ?thesis by blast
  next
    case False
    then have "padToPowerOfTwo xs = xs @ replicate 0 ''0''"
      by (simp add: padToPowerOfTwo.simps[of xs])
    then show ?thesis by blast
  qed
qed

lemma padToPowerOfTwo_and:
  "length (padToPowerOfTwo xs) AND (length (padToPowerOfTwo xs) - 1) = 0"
proof (induction xs rule: padToPowerOfTwo.induct)
  case (1 xs)
  then show ?case by (cases "(length xs AND (length xs - 1)) \<noteq> 0") (simp_all add: padToPowerOfTwo.simps[of xs])
qed

lemma padToPowerOfTwo_pow2:
  "xs \<noteq> [] \<Longrightarrow> \<exists>k. length (padToPowerOfTwo xs) = 2 ^ k"
proof -
  assume "xs \<noteq> []"
  moreover obtain m where "padToPowerOfTwo xs = xs @ replicate m ''0''"
    using padToPowerOfTwo_shape by blast
  ultimately have "0 < length (padToPowerOfTwo xs)" by simp
  then show ?thesis using padToPowerOfTwo_and by (rule and_pred_pow2)
qed

lemma padToPowerOfTwo_fixed:
  "length xs = 2 ^ k \<Longrightarrow> padToPowerOfTwo xs = xs"
  using pow2_and_pred[of k] by (simp add: padToPowerOfTwo.simps[of xs])

lemma paddedLeaves_shape: "\<exists>m. paddedLeaves_of ls = ls @ replicate m ''0''"
proof -
  obtain m where m: "padToPowerOfTwo ls = ls @ replicate m ''0''"
    using padToPowerOfTwo_shape by blast
  show ?thesis
  proof (cases "length (padToPowerOfTwo ls) = 1")
    case True
    with m have "paddedLeaves_of ls = ls @ replicate (Suc m) ''0''"
      by (simp add: paddedLeaves_of_def replicate_app_Cons_same)
    then show ?thesis by blast
  next
    case False
    with m show ?thesis by (auto simp: paddedLeaves_of_def)
  qed
qed

lemma paddedLeaves_pow2:
  assumes "ls \<noteq> []"
  shows "\<exists>k. length (paddedLeaves_of ls) = 2 ^ Suc k"
proof -
  from padToPowerOfTwo_pow2[OF assms] obtain k where k: "length (padToPowerOfTwo ls) = 2 ^ k" by blast
  show ?thesis
  proof (cases k)
    case 0
    with k have "length (paddedLeaves_of ls) = 2 ^ Suc 0" by (simp add: paddedLeaves_of_def)
    then show ?thesis by blast
  next
    case (Suc j)
    with k have "length (padToPowerOfTwo ls) \<noteq> 1" by simp
    with k Suc have "length (paddedLeaves_of ls) = 2 ^ Suc j" by (simp add: paddedLeaves_of_def)
    then show ?thesis by blast
  qed
qed

lemma paddedLeaves_longer:
  assumes "ls \<noteq> []" and "length ls = 1 \<or> (\<forall>j. length ls \<noteq> 2 ^ j)"
  shows "length ls < length (paddedLeaves_of ls)"
proof -
  obtain m where m: "paddedLeaves_of ls = ls @ replicate m ''0''"
    using paddedLeaves_shape by blast
  from paddedLeaves_pow2[OF assms(1)] obtain k where k: "length (paddedLeaves_of ls) = 2 ^ Suc k" by blast
  have "m \<noteq> 0"
  proof
    assume "m = 0"
    with m k have "length ls = 2 ^ Suc k" by simp
    moreover have "(2::nat) ^ Suc k \<noteq> 1" by simp
    ultimately show False using assms(2) by metis
  qed
  with m show ?thesis by simp
qed

lemma buildLevels_total:
  "length cur = 2 ^ k \<Longrightarrow> (\<And>x. x \<in> set cur \<Longrightarrow> \<exists>v. BigInt_string x = Inr v) \<Longrightarrow>
     (\<And>ys. H ys \<noteq> []) \<Longrightarrow> \<exists>pushed final. buildLevels H cur = Inr (pushed, final)"
proof (induction k arbitrary: cur)
  case 0
  then show ?case by (simp add: buildLevels.simps[of H cur])
next
  case (Suc k)
  from Suc.prems(1) have ev: "even (length cur)" and gt: "length cur > 1"
    by (simp_all add: Suc_lessI)
  from nextLevel_total[OF ev Suc.prems(2)] obtain nl where nl: "nextLevel H cur = Inr nl" by blast
  from nextLevel_length[OF nl] Suc.prems(1) have "length nl = 2 ^ k" by simp
  moreover have "\<exists>v. BigInt_string x = Inr v" if "x \<in> set nl" for x
    using nextLevel_set[OF nl that] BigInt_toHex Suc.prems(3) by metis
  ultimately obtain pushed final where "buildLevels H nl = Inr (pushed, final)"
    using Suc.IH[of nl] Suc.prems(3) by blast
  with nl gt show ?case by (simp add: buildLevels.simps[of H cur])
qed

lemma merkle_create_Inr:
  assumes "merkle_create H ls = Inr tree"
  shows "ls \<noteq> [] \<and> (\<exists>level0 pushed final.
           hashLeaves H (paddedLeaves_of ls) = Inr level0 \<and>
           buildLevels H level0 = Inr (pushed, final) \<and>
           root tree = final ! 0 \<and> leaves tree = paddedLeaves_of ls \<and>
           levels tree = level0 # pushed)"
  using assms
  by (auto simp: merkle_create_def paddedLeaves_of_def Let_def split: if_splits sum.splits)

lemma merkle_create_Inl:
  assumes "merkle_create H ls = Inl e" and "ls \<noteq> []" and "\<And>ys. H ys \<noteq> []"
  shows "\<exists>l \<in> set ls. stringToFieldElement l = Inl e"
proof -
  obtain m where m: "paddedLeaves_of ls = ls @ replicate m ''0''"
    using paddedLeaves_shape by blast
  have zero: "stringToFieldElement ''0'' = Inr 48"
    by (simp add: stringToFieldElement_def accumulateBytes_def)
  show ?thesis
  proof (cases "hashLeaves H (paddedLeaves_of ls)")
    case (Inl e')
    with assms(1,2) have "e' = e"
      by (auto simp: merkle_create_def paddedLeaves_of_def Let_def split: if_splits sum.splits)
    with hashLeaves_Inl[OF Inl] obtain l where "l \<in> set (paddedLeaves_of ls)"
      and l: "stringToFieldElement l = Inl e" by blast
    with m zero have "l \<in> set ls" by (cases "l = ''0''") auto
    with l show ?thesis by blast
  next
    case (Inr level0)
    from paddedLeaves_pow2[OF assms(2)] hashLeaves_Inr[OF Inr] obtain k
      where "length level0 = 2 ^ Suc k" by auto
    moreover have "\<exists>v. BigInt_string x = Inr v" if "x \<in> set level0" for x
    proof -
      from that obtain i where "i < length level0" "x = level0 ! i" by (auto simp: in_set_conv_nth)
      with hashLeaves_Inr[OF Inr] obtain f where "x = toHex (H [f])" by auto
      with BigInt_toHex[OF assms(3)] show ?thesis by simp
    qed
    ultimately obtain pushed final where "buildLevels H level0 = Inr (pushed, final)"
      using buildLevels_total[of level0 "Suc k" H] assms(3) by blast
    with Inr assms(1,2) show ?thesis
      by (auto simp: merkle_create_def paddedLeaves_of_def Let_def split: if_splits sum.splits)
  qed
qed

lemma round_trip_index:
  assumes "merkle_create H ls = Inr tree" and "i < length (leaves tree)"
  shows "\<exists>p r. merkle_proof tree (int i) = Inr p \<and> leaf p = leaves tree ! i \<and>
           merkle_verify H (root tree) (leaves tree ! i) p = Inr r \<and> valid r"
proof -
  from merkle_create_Inr[OF assms(1)] obtain level0 pushed final where
    hl: "hashLeaves H (paddedLeaves_of ls) = Inr level0" and
    bl: "buildLevels H level0 = Inr (pushed, final)" and
    rt: "root tree = final ! 0" and lv: "leaves tree = paddedLeaves_of ls" and
    lvs: "levels tree = level0 # pushed" by blast
  from hashLeaves_Inr[OF hl] assms(2) lv obtain f where
    len: "length level0 = length (leaves tree)" and
    f: "stringToFieldElement (leaves tree ! i) = Inr f" and h: "level0 ! i = toHex (H [f])"
    by auto
  define p where "p = \<lparr> leaf = leaves tree ! i, index = int i,
      pathElements = fst (proofPath (levels tree) i), pathIndices = snd (proofPath (levels tree) i),
      proofRoot = root tree \<rparr>"
  have 1: "merkle_proof tree (int i) = Inr p"
    using assms(2) by (simp add: merkle_proof_def p_def split_beta)
  from path_round_trip[OF bl, of i] assms(2) len
  have "verifyPath H (level0 ! i) (pathElements p) (pathIndices p) = Inr (root tree)"
    by (simp add: p_def lvs rt)
  with f h have "merkle_verify H (root tree) (leaves tree ! i) p =
      Inr \<lparr> valid = True, computedRoot = root tree, expectedRoot = root tree,
            verifiedLeaf = leaves tree ! i \<rparr>"
    by (simp add: merkle_verify_def)
  with 1 show ?thesis by (simp add: p_def)
qed

lemma verifyPath_returns:
  assumes "\<And>ys. H ys \<noteq> []" and "\<exists>v. BigInt_string cur = Inr v"
  shows "(case verifyPath H cur pes pis of
            Inr h \<Rightarrow> \<forall>e \<in> set pes. \<exists>v. BigInt_element e = Inr v
          | Inl e \<Rightarrow> \<exists>x \<in> set pes. BigInt_element x = Inl e)"
  using assms(2)
proof (induction pes arbitrary: cur pis)
  case Nil
  then show ?case by simp
next
  case (Cons pe pes)
  show ?case
  proof (cases "BigInt_element pe")
    case (Inl e)
    then show ?thesis by simp
  next
    case (Inr sibling)
    from Cons.prems obtain current where c: "BigInt_string cur = Inr current" by blast
    define nxt where "nxt = toHex (H (if (case pis of [] \<Rightarrow> False | p # _ \<Rightarrow> p = 0)
                               then [current, sibling] else [sibling, current]))"
    have "\<exists>v. BigInt_string nxt = Inr v" unfolding nxt_def by (rule BigInt_toHex[OF assms(1)])
    from Cons.IH[OF this, of "tl pis"] Inr c show ?thesis
      by (auto simp: nxt_def Let_def split: sum.splits if_splits)
  qed
qed

section \<open>Properties of the range proof engine\<close>

lemma generateSalt_toHex: "generateSalt rnd = toHex rnd"
  by (simp add: generateSalt_def hexOfBuffer_def toHex_def byteHex_eq)

lemma bitAt_bit: "i < 32 \<Longrightarrow> bitAt x i = of_bool (bit x i)"
proof -
  assume "i < 32"
  then have "bit (signed_take_bit 31 x) i = bit x i"
    by (cases "i = 31") (simp_all add: bit_signed_take_bit_iff min_def)
  with \<open>i < 32\<close> show ?thesis
    by (simp add: bitAt_def and_one_eq mod_2_eq_odd bit_iff_odd_drop_bit)
qed

lemma reconstruct_shift: "reconstruct (Suc i) bs = 2 * reconstruct i bs"
  by (induction bs arbitrary: i) (simp_all add: algebra_simps)

lemma reconstruct_bits:
  "reconstruct 0 (map (\<lambda>i. of_bool (bit x i)) [0..<w]) = take_bit w (x :: int)"
proof -
  have "reconstruct k (map of_bool bs) = 2 ^ k * horner_sum of_bool 2 bs" for k and bs :: "bool list"
  proof (induction bs arbitrary: k)
    case Nil
    then show ?case by simp
  next
    case (Cons b bs)
    then show ?case by (simp add: algebra_simps)
  qed
  from this[of 0 "map (bit x) [0..<w]"] show ?thesis
    by (simp add: horner_sum_bit_eq_take_bit comp_def)
qed

lemma bitWidth_le:
  assumes "0 \<le> r" and "r < 2 ^ 32"
  shows "max 1 (ceil_log2 (r + 1)) \<le> 32"
proof -
  from assms have "r + 1 \<le> 2 ^ 32" by simp
  then have "ceil_log2 (r + 1) \<le> 32" by (rule ceil_log2_le)
  then show ?thesis by simp
qed

lemma bitCommitmentsMatch_own:
  "bitCommitmentsMatch H s k (map f [k..<k + n])
     (map (\<lambda>i. toHex (H [f i, s, int i])) [k..<k + n]) = Inr True"
proof (induction n arbitrary: k)
  case 0
  then show ?case by simp
next
  case (Suc n)
  have "[k..<k + Suc n] = k # [Suc k..<Suc k + n]" by (simp add: upt_rec)
  with Suc[of "Suc k"] show ?case by simp
qed

lemma range_prove_Inr:
  assumes "rnd \<noteq> []" and "lo \<le> v" and "v \<le> hi"
  shows "\<exists>s. BigInt_string (generateSalt rnd) = Inr s \<and>
           range_prove H rnd v lo hi =
             Inr \<lparr> valueCommitment = toHex (H [v, s]), proofMin = lo, proofMax = hi,
                   bits = map (\<lambda>i. bitAt (v - lo) i) [0..<max 1 (ceil_log2 (hi - lo + 1))],
                   bitCommitments = map (\<lambda>i. toHex (H [bitAt (v - lo) i, s, int i]))
                                      [0..<max 1 (ceil_log2 (hi - lo + 1))],
                   salt = generateSalt rnd, proofValid = True \<rparr>"
proof -
  from BigInt_toHex[OF assms(1)] obtain s where "BigInt_string (generateSalt rnd) = Inr s"
    by (auto simp: generateSalt_toHex)
  with assms(2,3) show ?thesis by (simp add: range_prove_def Let_def)
qed


section \<open>Properties of the commitment scheme and the nullifier registry\<close>

lemma BigInt_hex:
  assumes "ds \<noteq> []" and "set ds \<subseteq> hexChars"
  shows "\<exists>v. BigInt_string (''0x'' @ ds) = Inr v"
proof -
  have "CHR ''0'' \<in> hexChars" by (simp add: hexChars_def)
  with assms(2) have "set (''0x'' @ ds) \<subseteq> insert (CHR ''x'') hexChars" by auto
  then have t: "trim (''0x'' @ ds) = ''0x'' @ ds" by (intro trim_plain) simp_all
  have "list_all (\<lambda>c. digitValue c < 16) ds"
    using assms(2) by (auto simp: list_all_iff digitValue_hex)
  with assms(1) have "\<exists>v. parseDigits 16 ds = Inr v" by (simp add: parseDigits_def)
  moreover have "BigInt_string (''0x'' @ ds) = parseDigits 16 ds"
    unfolding BigInt_string_def Let_def t by simp
  ultimately show ?thesis by simp
qed

lemma unat_byte_mod: "unat (b :: byte) mod 16 < 16"
  by simp

lemma set_hexOfBuffer: "set (hexOfBuffer bs) \<subseteq> hexChars"
  by (auto simp: hexOfBuffer_def hexDigit_in unat_byte_div)

lemma length_hexOfBuffer: "length (hexOfBuffer bs) = 2 * length bs"
  by (induction bs) (simp_all add: hexOfBuffer_def)

lemma saltOfSecret_parses: "\<exists>v. hexToFieldElement (saltOfSecret secret) = Inr v"
proof -
  define ds where "ds = take 64 (padEnd 64 (CHR ''0'') (hexOfBuffer (map of_char secret)))"
  have "CHR ''0'' \<in> hexChars" by (simp add: hexChars_def)
  then have "set (padEnd 64 (CHR ''0'') (hexOfBuffer (map of_char secret))) \<subseteq> hexChars"
    using set_hexOfBuffer[of "map of_char secret"] by (auto simp: padEnd_def)
  then have sub: "set ds \<subseteq> hexChars" unfolding ds_def by (meson set_take_subset subset_trans)
  have "length ds = 64" by (simp add: ds_def padEnd_def)
  then have ne: "ds \<noteq> []" by auto
  have "hexToFieldElement (saltOfSecret secret) = BigInt_string (''0x'' @ ds)"
    by (simp add: hexToFieldElement_def saltOfSecret_def ds_def)
  with BigInt_hex[OF ne sub] show ?thesis by simp
qed

lemma generateSalt_parses: "rnd \<noteq> [] \<Longrightarrow> \<exists>v. hexToFieldElement (generateSalt rnd) = Inr v"
proof -
  assume "rnd \<noteq> []"
  then have "hexOfBuffer rnd \<noteq> []" using length_hexOfBuffer[of rnd] by auto
  from BigInt_hex[OF this set_hexOfBuffer]
  show ?thesis by (simp add: hexToFieldElement_def generateSalt_def)
qed

lemma lowerChar_hex: "c \<in> insert (CHR ''x'') hexChars \<Longrightarrow> lowerChar c = c"
  using hex_ascii[of c] by (auto simp: lowerChar_def hexChars_def)

lemma toLowerCase_toHex: "toLowerCase (toHex bs) = toHex bs"
proof -
  have "CHR ''0'' \<in> hexChars" by (simp add: hexChars_def)
  with digits_toHex[of bs] have "set (toHex bs) \<subseteq> insert (CHR ''x'') hexChars"
    unfolding set_toHex by blast
  then show ?thesis unfolding toLowerCase_def by (intro map_idI lowerChar_hex) auto
qed

lemma hexDigit_inj: "a < 16 \<Longrightarrow> b < 16 \<Longrightarrow> hexDigit a = hexDigit b \<Longrightarrow> a = b"
proof -
  assume "a < 16" "b < 16" and eq: "hexDigit a = hexDigit b"
  have "distinct ''0123456789abcdef''" by simp
  moreover have "length ''0123456789abcdef'' = 16" by simp
  ultimately show ?thesis using \<open>a < 16\<close> \<open>b < 16\<close> eq
    unfolding hexDigit_def by (metis nth_eq_iff_index_eq)
qed

lemma byteHex_inj:
  assumes "[hexDigit (unat (a :: byte) div 16), hexDigit (unat a mod 16)] =
           [hexDigit (unat (b :: byte) div 16), hexDigit (unat b mod 16)]"
  shows "a = b"
proof -
  from assms have "unat a div 16 = unat b div 16" and "unat a mod 16 = unat b mod 16"
    by (auto dest: hexDigit_inj[rotated 2] simp: unat_byte_div)
  then have "unat a = unat b" by (metis div_mult_mod_eq)
  then show ?thesis by (rule word_unat_eq_iff[THEN iffD2])
qed

lemma toHex_inj: "toHex as = toHex bs \<Longrightarrow> as = bs"
proof (induction as arbitrary: bs)
  case Nil
  then show ?case by (cases bs) (simp_all add: toHex_def byteHex_eq)
next
  case (Cons a as)
  then obtain b bs' where bs: "bs = b # bs'" by (cases bs) (auto simp: toHex_def byteHex_eq)
  with Cons.prems have "a = b" and "toHex as = toHex bs'"
    by (auto simp: toHex_def byteHex_eq intro: byteHex_inj)
  with Cons.IH bs show ?case by simp
qed

lemma toHex_eq_iff: "toLowerCase (toHex as) = toLowerCase (toHex bs) \<longleftrightarrow> as = bs"
  by (auto simp: toLowerCase_toHex dest: toHex_inj)

lemma foldl_horner:
  "foldl (\<lambda>r b. r * 256 + int (of_char b)) a bs =
     a * 256 ^ length bs + (\<Sum>i < length bs. int (of_char (bs ! i)) * 256 ^ (length bs - 1 - i))"
proof (induction bs rule: rev_induct)
  case Nil
  then show ?case by simp
next
  case (snoc x xs)
  define g where "g = (\<lambda>i. int (of_char (xs ! i)) * 256 ^ (length xs - 1 - i))"
  have "(\<Sum>i < length xs. int (of_char ((xs @ [x]) ! i)) * 256 ^ (length (xs @ [x]) - 1 - i))
        = (\<Sum>i < length xs. g i * 256)"
  proof (rule sum.cong)
    fix i assume "i \<in> {..<length xs}"
    then have i: "i < length xs" by simp
    then have "length xs - i = Suc (length xs - 1 - i)" by simp
    with i show "int (of_char ((xs @ [x]) ! i)) * 256 ^ (length (xs @ [x]) - 1 - i) = g i * 256"
      by (simp add: nth_append g_def)
  qed simp
  also have "\<dots> = (\<Sum>i < length xs. g i) * 256" by (simp add: sum_distrib_right)
  finally have step: "(\<Sum>i < length (xs @ [x]). int (of_char ((xs @ [x]) ! i)) * 256 ^ (length (xs @ [x]) - 1 - i))
        = (\<Sum>i < length xs. g i) * 256 + int (of_char x)"
    by simp
  have "foldl (\<lambda>r b. r * 256 + int (of_char b)) a (xs @ [x])
        = (a * 256 ^ length xs + (\<Sum>i < length xs. g i)) * 256 + int (of_char x)"
    using snoc by (simp add: g_def)
  also have "\<dots> = a * 256 ^ length (xs @ [x]) + ((\<Sum>i < length xs. g i) * 256 + int (of_char x))"
    by (simp add: algebra_simps)
  finally show ?case unfolding step .
qed

lemma accumulateBytes_bigEndian: "accumulateBytes s = bigEndianValue (take 31 s)"
  unfolding accumulateBytes_def bigEndianValue_def by (subst foldl_horner) simp

lemma accumulateBytes_take: "take 31 t = take 31 s \<Longrightarrow> accumulateBytes t = accumulateBytes s"
  by (simp add: accumulateBytes_def)

lemma addToSet_member:
  "x |\<in>| nullifiers s \<Longrightarrow> x |\<in>| nullifiers (snd (nullifier_addToSet toLower s h))"
  by (simp add: nullifier_addToSet_def Let_def)

lemma addAll_member:
  "x |\<in>| nullifiers s \<Longrightarrow> x |\<in>| nullifiers (snd (addAll toLower s hs))"
proof (induction hs arbitrary: s)
  case Nil
  then show ?case by simp
next
  case (Cons h hs)
  from Cons.IH[OF addToSet_member[OF Cons.prems, where h = h and toLower = toLower]] show ?case
    by (simp add: split_beta)
qed

lemma addToSet_added: "toLower h |\<in>| nullifiers (snd (nullifier_addToSet toLower s h))"
  by (simp add: nullifier_addToSet_def Let_def)

section \<open>The recomputed root\<close>

lemma digitValue_hexDigit: "k < 16 \<Longrightarrow> digitValue (hexDigit k) = k"
proof -
  assume "k < 16"
  then have "k \<in> set [0..<16]" by simp
  then show ?thesis
    unfolding upt_rec_numeral by (auto simp: hexDigit_def digitValue_def nth_Cons')
qed

lemma foldl_hex_digits:
  "foldl (\<lambda>a c. a * int 16 + int (digitValue c)) a
     (concat (map (\<lambda>b. [hexDigit (unat b div 16), hexDigit (unat b mod 16)]) (d :: byte list)))
   = foldl (\<lambda>a b. a * 256 + int (unat b)) a d"
  (is "foldl ?F a (concat (map ?bh d)) = foldl ?G a d")
proof (induction d arbitrary: a)
  case Nil
  then show ?case by simp
next
  case (Cons b d)
  define hi lo where "hi = unat b div 16" and "lo = unat b mod 16"
  have "hi < 16" unfolding hi_def by (rule unat_byte_div)
  moreover have "lo < 16" unfolding lo_def by simp
  ultimately have dv: "digitValue (hexDigit hi) = hi" "digitValue (hexDigit lo) = lo"
    by (simp_all add: digitValue_hexDigit)
  have "unat b = hi * 16 + lo" unfolding hi_def lo_def by simp
  then have "(a * 16 + int hi) * 16 + int lo = a * 256 + int (unat b)"
    by (simp add: algebra_simps)
  then have E: "foldl ?F a [hexDigit hi, hexDigit lo] = a * 256 + int (unat b)"
    by (simp add: dv)
  have "foldl ?F a (concat (map ?bh (b # d)))
          = foldl ?F (foldl ?F a [hexDigit hi, hexDigit lo]) (concat (map ?bh d))"
    unfolding hi_def lo_def by (simp only: list.map concat.simps foldl_append)
  also have "\<dots> = foldl ?F (a * 256 + int (unat b)) (concat (map ?bh d))"
    by (simp only: E)
  also have "\<dots> = foldl ?G (a * 256 + int (unat b)) d"
    by (rule Cons)
  also have "\<dots> = foldl ?G a (b # d)"
    by simp
  finally show ?case .
qed

lemma BigInt_toHex_value: "d \<noteq> [] \<Longrightarrow> BigInt_string (toHex d) = Inr (digestValue d)"
proof -
  assume ne: "d \<noteq> []"
  have "CHR ''0'' \<in> hexChars" by (simp add: hexChars_def)
  with digits_toHex[of d] have "set (toHex d) \<subseteq> insert (CHR ''x'') hexChars"
    unfolding set_toHex by blast
  moreover have "toHex d \<noteq> []" by (simp add: toHex_def)
  ultimately have t: "trim (toHex d) = toHex d" by (intro trim_plain)
  from ne have "drop 2 (toHex d) \<noteq> []" by (cases d) (auto simp: drop2_toHex)
  moreover have "list_all (\<lambda>c. digitValue c < 16) (drop 2 (toHex d))"
    using digits_toHex[of d] by (auto simp: list_all_iff digitValue_hex)
  ultimately have "parseDigits 16 (drop 2 (toHex d)) =
      Inr (foldl (\<lambda>a c. a * int 16 + int (digitValue c)) 0 (drop 2 (toHex d)))"
    by (simp add: parseDigits_def)
  also have "\<dots> = Inr (digestValue d)"
    unfolding drop2_toHex foldl_hex_digits digestValue_def ..
  finally have "parseDigits 16 (drop 2 (toHex d)) = Inr (digestValue d)" .
  moreover have "BigInt_string (toHex d) = parseDigits 16 (drop 2 (toHex d))"
    unfolding BigInt_string_def Let_def t take2_toHex using \<open>toHex d \<noteq> []\<close>
    by (simp only: if_True if_False simp_thms)
  ultimately show ?thesis by simp
qed

lemma verifyPath_recomputed:
  assumes "\<And>ys. H ys \<noteq> []"
  shows "d \<noteq> [] \<Longrightarrow> map BigInt_element pes = map Inr sibs \<Longrightarrow>
         verifyPath H (toHex d) pes (drop i indices)
           = Inr (toHex (recomputedRoot H d sibs indices i))"
proof (induction pes arbitrary: d sibs i)
  case Nil
  then show ?case by simp
next
  case (Cons pe pes)
  from Cons.prems(2) obtain sibling rest where sibs: "sibs = sibling # rest"
    and pe: "BigInt_element pe = Inr sibling" and rest: "map BigInt_element pes = map Inr rest"
    by (cases sibs) auto
  have left: "(case drop i indices of [] \<Rightarrow> False | p # _ \<Rightarrow> p = 0) = (nth_opt indices i = Some 0)"
    by (cases "drop i indices")
       (auto simp: nth_opt_def hd_drop_conv_nth[symmetric] dest: arg_cong[where f = hd])
  define nxt where "nxt = (if nth_opt indices i = Some 0 then H [digestValue d, sibling]
                           else H [sibling, digestValue d])"
  have "nxt \<noteq> []" unfolding nxt_def using assms by simp
  from Cons.IH[OF this rest, of "Suc i"]
  have "verifyPath H (toHex nxt) pes (tl (drop i indices))
          = Inr (toHex (recomputedRoot H nxt rest indices (Suc i)))"
    by (simp add: drop_Suc tl_drop)
  then show ?case
    using pe BigInt_toHex_value[OF Cons.prems(1)] left
    by (auto simp: sibs nxt_def Let_def)
qed

lemma all_parsed:
  "(\<And>e. e \<in> set es \<Longrightarrow> \<exists>v. BigInt_element e = Inr v) \<Longrightarrow> \<exists>vs. map BigInt_element es = map Inr vs"
proof (induction es)
  case Nil
  then show ?case by simp
next
  case (Cons e es)
  then obtain v vs where "BigInt_element e = Inr v" "map BigInt_element es = map Inr vs"
    by (metis list.set_intros(1) list.set_intros(2))
  then have "map BigInt_element (e # es) = map Inr (v # vs)" by simp
  then show ?case by blast
qed


section \<open>The claims\<close>

subsection \<open>Merkle round trip\<close>

text \<open>
  Claim C1, as amended. For an oracle that returns a digest of at least one byte, and a
  non-empty sequence of leaves each of which \<open>stringToFieldElement\<close> encodes (a leaf that
  starts with \<open>0x\<close> has to be a literal that \<open>BigInt\<close> accepts), \<open>merkle.create\<close> returns a
  tree, and for every index \<open>i\<close> of its leaves \<open>merkle.proof\<close> returns a proof that
  \<open>merkle.verify\<close> accepts for \<open>tree.leaves[i]\<close> against \<open>tree.root\<close>.
\<close>

theorem merkle_round_trip:
  assumes "\<forall>ys. H ys \<noteq> []" and "ls \<noteq> []"
    and "\<forall>l \<in> set ls. \<exists>f. stringToFieldElement l = Inr f"
  shows "\<exists>tree. merkle_create H ls = Inr tree \<and>
           (\<forall>i < length (leaves tree). \<exists>p r.
              merkle_proof tree (int i) = Inr p \<and>
              merkle_verify H (root tree) (leaves tree ! i) p = Inr r \<and> valid r)"
proof (cases "merkle_create H ls")
  case (Inl e)
  from merkle_create_Inl[OF Inl assms(2)] assms(1,3) show ?thesis by fastforce
next
  case (Inr tree)
  from round_trip_index[OF Inr] Inr show ?thesis by blast
qed

theorem merkle_round_trip_witness:
  "\<exists>tree p r. merkle_create demo_oracle [''alice'', ''bob'', ''charlie''] = Inr tree \<and>
      merkle_proof tree 2 = Inr p \<and>
      merkle_verify demo_oracle (root tree) ''charlie'' p = Inr r \<and> valid r"
proof -
  have 1: "\<forall>ys. demo_oracle ys \<noteq> []" by (simp add: demo_oracle_def)
  have 2: "[''alice'', ''bob'', ''charlie''] \<noteq> []" by simp
  have 3: "\<forall>l \<in> set [''alice'', ''bob'', ''charlie'']. \<exists>f. stringToFieldElement l = Inr f"
    by (simp add: stringToFieldElement_def)
  from merkle_round_trip[OF 1 2 3] obtain tree where
    t: "merkle_create demo_oracle [''alice'', ''bob'', ''charlie''] = Inr tree" and
    rt: "\<forall>i < length (leaves tree). \<exists>p r. merkle_proof tree (int i) = Inr p \<and>
           merkle_verify demo_oracle (root tree) (leaves tree ! i) p = Inr r \<and> valid r"
    by blast
  have "map_sum id leaves (merkle_create demo_oracle [''alice'', ''bob'', ''charlie''])
          = Inr [''alice'', ''bob'', ''charlie'', ''0'']"
    by code_simp
  with t have lv: "leaves tree = [''alice'', ''bob'', ''charlie'', ''0'']" by simp
  with rt[rule_format, of 2] t show ?thesis by auto
qed

theorem merkle_round_trip_counterexample:
  "merkle_create demo_oracle [''0xzz''] = Inl SyntaxError"
  by code_simp

subsection \<open>Padding leaves\<close>

text \<open>
  Claim C9. In a tree that \<open>merkle.create\<close> built from \<open>k\<close> leaves, every index \<open>i\<close> with
  \<open>k \<le> i < tree.leaves.length\<close> is accepted by \<open>merkle.proof\<close>, which returns a proof for
  the sentinel leaf \<open>"0"\<close> that \<open>merkle.verify\<close> accepts against the root; and there are
  such indices when \<open>k\<close> is 1 or not a power of two.
\<close>

theorem padding_leaves_provable:
  assumes "merkle_create H ls = Inr tree"
  shows "(\<forall>i. length ls \<le> i \<and> i < length (leaves tree) \<longrightarrow>
            (\<exists>p r. merkle_proof tree (int i) = Inr p \<and> leaf p = ''0'' \<and>
                   merkle_verify H (root tree) ''0'' p = Inr r \<and> valid r)) \<and>
         ((length ls = 1 \<or> (\<forall>j. length ls \<noteq> 2 ^ j)) \<longrightarrow> length ls < length (leaves tree))"
proof -
  from merkle_create_Inr[OF assms] have ne: "ls \<noteq> []" and lv: "leaves tree = paddedLeaves_of ls"
    by auto
  obtain m where m: "paddedLeaves_of ls = ls @ replicate m ''0''"
    using paddedLeaves_shape by blast
  have "\<exists>p r. merkle_proof tree (int i) = Inr p \<and> leaf p = ''0'' \<and>
               merkle_verify H (root tree) ''0'' p = Inr r \<and> valid r"
    if "length ls \<le> i" and "i < length (leaves tree)" for i
  proof -
    from that lv m have "leaves tree ! i = ''0''" by (simp add: nth_append)
    with round_trip_index[OF assms that(2)] show ?thesis by auto
  qed
  moreover have "length ls < length (leaves tree)"
    if "length ls = 1 \<or> (\<forall>j. length ls \<noteq> 2 ^ j)"
    using paddedLeaves_longer[OF ne that] lv by simp
  ultimately show ?thesis by blast
qed

theorem padding_leaves_provable_witness:
  "\<exists>tree p r. merkle_create demo_oracle [''alice'', ''bob'', ''charlie''] = Inr tree \<and>
      length (leaves tree) = 4 \<and> merkle_proof tree 3 = Inr p \<and> leaf p = ''0'' \<and>
      merkle_verify demo_oracle (root tree) ''0'' p = Inr r \<and> valid r"
proof -
  have "map_sum id leaves (merkle_create demo_oracle [''alice'', ''bob'', ''charlie''])
          = Inr [''alice'', ''bob'', ''charlie'', ''0'']"
    by code_simp
  then obtain tree where
    t: "merkle_create demo_oracle [''alice'', ''bob'', ''charlie''] = Inr tree" and
    lv: "leaves tree = [''alice'', ''bob'', ''charlie'', ''0'']"
    by (cases "merkle_create demo_oracle [''alice'', ''bob'', ''charlie'']") auto
  from padding_leaves_provable[OF t, THEN conjunct1, rule_format, of 3] lv
  have "\<exists>p r. merkle_proof tree (int 3) = Inr p \<and> leaf p = ''0'' \<and>
               merkle_verify demo_oracle (root tree) ''0'' p = Inr r \<and> valid r"
    by simp
  with t lv show ?thesis by auto
qed

subsection \<open>What \<open>merkle.verify\<close> throws\<close>

text \<open>
  Claim C6, as amended. For an oracle that returns a digest of at least one byte,
  \<open>merkle.verify\<close> returns a result, whatever the lengths of \<open>pathElements\<close> and
  \<open>pathIndices\<close>, when the leaf is encoded and \<open>BigInt\<close> accepts every path element. The
  computed root of the result is then the recomputation from the hash of the encoded leaf
  along the path elements, \<open>pathIndices\<close> read at the position of each element, and the
  result is valid exactly when this recomputed root is the expected one up to case. When
  it throws, it is the SyntaxError or TypeError that \<open>BigInt\<close> raised on the leaf or on a
  path element.
\<close>

theorem merkle_verify_returns:
  assumes "\<forall>ys. H ys \<noteq> []"
  shows "(case merkle_verify H expected lf mp of
            Inr r \<Rightarrow> (\<exists>f sibs. stringToFieldElement lf = Inr f \<and>
                        map BigInt_element (pathElements mp) = map Inr sibs \<and>
                        computedRoot r = toHex (recomputedRoot H (H [f]) sibs (pathIndices mp) 0)) \<and>
                     (\<forall>e \<in> set (pathElements mp). \<exists>v. BigInt_element e = Inr v) \<and>
                     valid r = (toLowerCase (computedRoot r) = toLowerCase expected) \<and>
                     expectedRoot r = expected \<and> verifiedLeaf r = lf
          | Inl e \<Rightarrow> (e = SyntaxError \<or> e = TypeError) \<and>
                     (stringToFieldElement lf = Inl e \<or>
                      (\<exists>x \<in> set (pathElements mp). BigInt_element x = Inl e)))"
proof (cases "stringToFieldElement lf")
  case (Inl e)
  then have "e = SyntaxError"
    by (auto simp: stringToFieldElement_def BigInt_string_def parseDigits_def Let_def map_sum_def
             split: if_splits sum.splits)
  with Inl show ?thesis by (simp add: merkle_verify_def)
next
  case (Inr f)
  have ne: "H [f] \<noteq> []" using assms by simp
  have p: "\<exists>v. BigInt_string (toHex (H [f])) = Inr v"
    using ne by (rule BigInt_toHex)
  have err: "e = SyntaxError \<or> e = TypeError" if "BigInt_element x = Inl e" for x e
    using that
    by (auto simp: BigInt_element_def BigInt_string_def parseDigits_def Let_def map_sum_def
             split: option.splits if_splits sum.splits)
  note vp = verifyPath_returns[where H = H and pes = "pathElements mp" and pis = "pathIndices mp", OF _ p]
  show ?thesis
  proof (cases "verifyPath H (toHex (H [f])) (pathElements mp) (pathIndices mp)")
    case (Inl e)
    with vp assms obtain x where "x \<in> set (pathElements mp)" "BigInt_element x = Inl e"
      by auto
    with err[of x e] Inl Inr show ?thesis by (auto simp: merkle_verify_def)
  next
    case h: (Inr h)
    with vp assms have all: "\<forall>e \<in> set (pathElements mp). \<exists>v. BigInt_element e = Inr v"
      by auto
    then obtain sibs where sibs: "map BigInt_element (pathElements mp) = map Inr sibs"
      using all_parsed[of "pathElements mp"] by blast
    from verifyPath_recomputed[of H "H [f]" "pathElements mp" sibs 0 "pathIndices mp", OF _ ne sibs]
      assms h
    have "h = toHex (recomputedRoot H (H [f]) sibs (pathIndices mp) 0)" by simp
    with Inr h sibs all show ?thesis by (auto simp: merkle_verify_def)
  qed
qed

theorem merkle_verify_returns_witness:
  "\<exists>r f sibs. merkle_verify demo_oracle ''0xAB'' ''alice''
          \<lparr> leaf = ''alice'', index = 0, pathElements = [Some ''0x01'', Some ''12''],
            pathIndices = [0, 1, 1, 5], proofRoot = ''0xAB'' \<rparr> = Inr r \<and>
        stringToFieldElement ''alice'' = Inr f \<and>
        map BigInt_element [Some ''0x01'', Some ''12''] = map Inr sibs \<and>
        computedRoot r = toHex (recomputedRoot demo_oracle (demo_oracle [f]) sibs [0, 1, 1, 5] 0) \<and>
        valid r = (toLowerCase (computedRoot r) = toLowerCase ''0xAB'')"
proof -
  have 1: "\<forall>ys. demo_oracle ys \<noteq> []" by (simp add: demo_oracle_def)
  have "isl (merkle_verify demo_oracle ''0xAB'' ''alice''
          \<lparr> leaf = ''alice'', index = 0, pathElements = [Some ''0x01'', Some ''12''],
            pathIndices = [0, 1, 1, 5], proofRoot = ''0xAB'' \<rparr>) = False"
    by code_simp
  then obtain r where r: "merkle_verify demo_oracle ''0xAB'' ''alice''
          \<lparr> leaf = ''alice'', index = 0, pathElements = [Some ''0x01'', Some ''12''],
            pathIndices = [0, 1, 1, 5], proofRoot = ''0xAB'' \<rparr> = Inr r"
    by (auto simp: isl_def intro: sum.exhaust)
  from merkle_verify_returns[OF 1, where expected = "''0xAB''" and lf = "''alice''" and mp =
          "\<lparr> leaf = ''alice'', index = 0, pathElements = [Some ''0x01'', Some ''12''],
            pathIndices = [0, 1, 1, 5], proofRoot = ''0xAB'' \<rparr>"] r
  show ?thesis by auto
qed

theorem merkle_verify_returns_counterexample:
  "merkle_verify demo_oracle ''0x00'' ''alice''
      \<lparr> leaf = ''alice'', index = 0, pathElements = [Some ''zz''], pathIndices = [0],
        proofRoot = ''0x00'' \<rparr> = Inl SyntaxError"
  by code_simp

subsection \<open>Range proofs\<close>

text \<open>
  Claim C2, as amended. For integers with \<open>min \<le> value \<le> max\<close> and \<open>max - min < 2 ^ 32\<close>,
  and at least one random byte for the salt, \<open>range.prove\<close> returns a proof with
  \<open>valid = true\<close> whose bit \<open>i\<close> is bit \<open>i\<close> of \<open>value - min\<close>, whose bits reconstruct to
  \<open>value\<close>, and for which \<open>range.verify\<close> returns \<open>valid = true\<close> with all three checks true.
\<close>

theorem range_prove_verify:
  assumes "rnd \<noteq> []" and "lo \<le> v" and "v \<le> hi" and "hi - lo < 2 ^ 32"
  shows "\<exists>p. range_prove H rnd v lo hi = Inr p \<and> proofValid p \<and>
           bits p = map (\<lambda>i. of_bool (bit (v - lo) i)) [0..<length (bits p)] \<and>
           reconstruct 0 (bits p) + lo = v \<and>
           range_verify H p =
             Inr \<lparr> resultValid = True, resultMin = lo, resultMax = hi,
                   checks = \<lparr> bitsAreBinary = True, valueInRange = True,
                              commitmentsMatch = True \<rparr> \<rparr>"
proof -
  define w where "w = max 1 (ceil_log2 (hi - lo + 1))"
  from range_prove_Inr[OF assms(1-3), of H] obtain s p where
    s: "BigInt_string (generateSalt rnd) = Inr s" and
    p: "range_prove H rnd v lo hi = Inr p" and
    p_def: "p = \<lparr> valueCommitment = toHex (H [v, s]), proofMin = lo, proofMax = hi,
                  bits = map (\<lambda>i. bitAt (v - lo) i) [0..<w],
                  bitCommitments = map (\<lambda>i. toHex (H [bitAt (v - lo) i, s, int i])) [0..<w],
                  salt = generateSalt rnd, proofValid = True \<rparr>"
    unfolding w_def by blast
  have w32: "w \<le> 32" unfolding w_def using assms(2-4) by (intro bitWidth_le) simp_all
  have w1: "0 < w" by (simp add: w_def)
  have bs: "bits p = map (\<lambda>i. of_bool (bit (v - lo) i)) [0..<w]"
    using w32 by (simp add: p_def bitAt_bit)
  have "hi - lo + 1 \<le> 2 ^ ceil_log2 (hi - lo + 1)" by (rule ceil_log2_ge)
  also have "\<dots> \<le> 2 ^ w" by (simp add: w_def)
  finally have "v - lo < 2 ^ w" using assms(3) by simp
  with assms(2) have "take_bit w (v - lo) = v - lo" by (simp add: take_bit_int_eq_self)
  then have rec: "reconstruct 0 (bits p) = v - lo" by (simp add: bs reconstruct_bits)
  have bin: "list_all (\<lambda>b. b = 0 \<or> b = 1) (bits p)" by (simp add: bs list_all_iff)
  have "bitCommitmentsMatch H s 0 (map (\<lambda>i. bitAt (v - lo) i) [0..<0 + w])
          (map (\<lambda>i. toHex (H [bitAt (v - lo) i, s, int i])) [0..<0 + w]) = Inr True"
    by (rule bitCommitmentsMatch_own)
  then have m: "bitCommitmentsMatch H s 0 (bits p) (bitCommitments p) = Inr True"
    by (simp add: p_def)
  have ver: "range_verify H p =
             Inr \<lparr> resultValid = True, resultMin = lo, resultMax = hi,
                   checks = \<lparr> bitsAreBinary = True, valueInRange = True,
                              commitmentsMatch = True \<rparr> \<rparr>"
    unfolding range_verify_def using w1 bin rec m s assms(2,3)
    by (simp add: Let_def) (simp add: p_def)
  from p bs rec ver show ?thesis by (auto simp: p_def)
qed

theorem range_prove_verify_witness:
  "\<exists>p. range_prove demo_oracle (replicate 32 7) 25 18 100 = Inr p \<and> proofValid p \<and>
        reconstruct 0 (bits p) + 18 = 25 \<and>
        range_verify demo_oracle p =
          Inr \<lparr> resultValid = True, resultMin = 18, resultMax = 100,
                checks = \<lparr> bitsAreBinary = True, valueInRange = True,
                           commitmentsMatch = True \<rparr> \<rparr>"
  using range_prove_verify[of "replicate 32 7" 18 25 100 demo_oracle] by auto

theorem range_prove_verify_counterexample:
  "map_sum id (\<lambda>p. (proofValid p, reconstruct 0 (bits p) + proofMin p, range_verify demo_oracle p))
     (range_prove demo_oracle (replicate 32 7) 1 0 (2 ^ 32))
   = Inr (True, 2 ^ 32 + 1,
          Inr \<lparr> resultValid = False, resultMin = 0, resultMax = 2 ^ 32,
                checks = \<lparr> bitsAreBinary = True, valueInRange = False,
                           commitmentsMatch = False \<rparr> \<rparr>)"
  by code_simp

text \<open>
  Claim C5. When \<open>value < min\<close> or \<open>value > max\<close>, \<open>range.prove\<close> returns, without
  throwing, the proof object with \<open>valid = false\<close> and empty \<open>bits\<close> and \<open>bitCommitments\<close>.
\<close>

theorem range_prove_out_of_range:
  assumes "v < lo \<or> v > hi"
  shows "range_prove H rnd v lo hi =
           Inr \<lparr> valueCommitment = ''0x0'', proofMin = lo, proofMax = hi, bits = [],
                 bitCommitments = [], salt = ''0x0'', proofValid = False \<rparr>"
  using assms by (simp add: range_prove_def)

theorem range_prove_out_of_range_witness:
  "range_prove demo_oracle (replicate 32 7) 15 18 100 =
     Inr \<lparr> valueCommitment = ''0x0'', proofMin = 18, proofMax = 100, bits = [],
           bitCommitments = [], salt = ''0x0'', proofValid = False \<rparr>"
  using range_prove_out_of_range[of 15 18 100 demo_oracle "replicate 32 7"] by simp

text \<open>
  Claim C10. \<open>range.verify\<close> returns \<open>valid = false\<close> with all three checks false whenever
  the proof's own \<open>valid\<close> field is false or its \<open>bits\<close> array is empty, whatever the oracle
  and whatever the commitments and the salt of the proof are.
\<close>

theorem range_verify_early_exit:
  assumes "\<not> proofValid p \<or> bits p = []"
  shows "range_verify H p =
           Inr \<lparr> resultValid = False, resultMin = proofMin p, resultMax = proofMax p,
                 checks = \<lparr> bitsAreBinary = False, valueInRange = False,
                            commitmentsMatch = False \<rparr> \<rparr>"
  using assms by (auto simp: range_verify_def rejected_def)

theorem range_verify_early_exit_witness:
  "\<exists>p. range_prove demo_oracle (replicate 32 7) 25 18 100 = Inr p \<and>
        range_verify demo_oracle p =
          Inr \<lparr> resultValid = True, resultMin = 18, resultMax = 100,
                checks = \<lparr> bitsAreBinary = True, valueInRange = True,
                           commitmentsMatch = True \<rparr> \<rparr> \<and>
        range_verify demo_oracle (p\<lparr> proofValid := False \<rparr>) =
          Inr \<lparr> resultValid = False, resultMin = 18, resultMax = 100,
                checks = \<lparr> bitsAreBinary = False, valueInRange = False,
                           commitmentsMatch = False \<rparr> \<rparr>"
proof -
  have "map_sum id (\<lambda>p. (proofMin p, proofMax p, range_verify demo_oracle p))
          (range_prove demo_oracle (replicate 32 7) 25 18 100)
        = Inr (18, 100, Inr \<lparr> resultValid = True, resultMin = 18, resultMax = 100,
                checks = \<lparr> bitsAreBinary = True, valueInRange = True,
                           commitmentsMatch = True \<rparr> \<rparr>)"
    by code_simp
  then obtain p where p: "range_prove demo_oracle (replicate 32 7) 25 18 100 = Inr p"
    and "proofMin p = 18" "proofMax p = 100"
    and "range_verify demo_oracle p =
          Inr \<lparr> resultValid = True, resultMin = 18, resultMax = 100,
                checks = \<lparr> bitsAreBinary = True, valueInRange = True,
                           commitmentsMatch = True \<rparr> \<rparr>"
    by (cases "range_prove demo_oracle (replicate 32 7) 25 18 100") auto
  with range_verify_early_exit[of "p\<lparr> proofValid := False \<rparr>" demo_oracle]
  show ?thesis by auto
qed

subsection \<open>Commitments\<close>

text \<open>
  Claim C3, as amended. For every non-empty secret and every value that
  \<open>valueToFieldElement\<close> encodes without throwing, \<open>commit.create\<close> returns a commitment
  whose salt is derived from the secret (its bytes in hexadecimal, padded on the right
  with \<open>0\<close> and cut to 64 characters after \<open>0x\<close>), \<open>commit.reveal\<close> derives the same salt
  and returns \<open>valid = true\<close> for that commitment, value and secret. Without a secret,
  \<open>commit.create\<close> takes the salt from the random bytes.
\<close>

theorem commit_round_trip:
  assumes "secret \<noteq> []" and "valueToFieldElement toNumber v = Inr f"
  shows "(\<exists>c. commit_create H toNumber rnd v (Some secret) = Inr c \<and>
              commitSalt c = saltOfSecret secret \<and> length (commitSalt c) = 66 \<and>
              commit_reveal H toNumber (commitment c) v secret =
                Inr \<lparr> revealValid = True, revealCommitment = commitment c,
                      revealSalt = saltOfSecret secret \<rparr>) \<and>
         (rnd \<noteq> [] \<longrightarrow>
            (\<exists>c. commit_create H toNumber rnd v None = Inr c \<and> commitSalt c = generateSalt rnd))"
proof -
  obtain s where s: "hexToFieldElement (saltOfSecret secret) = Inr s"
    using saltOfSecret_parses by blast
  have len: "length (saltOfSecret secret) = 66"
    by (simp add: saltOfSecret_def padEnd_def)
  have 1: "commit_create H toNumber rnd v (Some secret) =
             Inr \<lparr> commitment = toHex (H [f, s]), commitSalt = saltOfSecret secret \<rparr>"
    using assms s by (simp add: commit_create_def)
  have 2: "commit_reveal H toNumber (toHex (H [f, s])) v secret =
             Inr \<lparr> revealValid = True, revealCommitment = toHex (H [f, s]),
                   revealSalt = saltOfSecret secret \<rparr>"
    using assms s by (simp add: commit_reveal_def)
  have 3: "\<exists>c. commit_create H toNumber rnd v None = Inr c \<and> commitSalt c = generateSalt rnd"
    if "rnd \<noteq> []"
  proof -
    from generateSalt_parses[OF that] obtain r where "hexToFieldElement (generateSalt rnd) = Inr r"
      by blast
    with assms(2) show ?thesis by (simp add: commit_create_def)
  qed
  from 1 2 3 len show ?thesis by simp
qed

theorem commit_round_trip_witness:
  "\<exists>c. commit_create demo_oracle demo_Number (replicate 32 7) (VNumber (Finite 100))
          (Some ''my_random_secret'') = Inr c \<and>
        commitSalt c = saltOfSecret ''my_random_secret'' \<and>
        commit_reveal demo_oracle demo_Number (commitment c) (VNumber (Finite 100))
          ''my_random_secret'' =
          Inr \<lparr> revealValid = True, revealCommitment = commitment c,
                revealSalt = saltOfSecret ''my_random_secret'' \<rparr>"
proof -
  have 1: "''my_random_secret'' \<noteq> []" by simp
  have 2: "valueToFieldElement demo_Number (VNumber (Finite 100)) = Inr 100"
    by (simp add: valueToFieldElement_def BigInt_number_def)
  from commit_round_trip[OF 1 2, of demo_oracle "replicate 32 7"] show ?thesis by blast
qed

theorem commit_round_trip_counterexample:
  "commit_create demo_oracle demo_Number (replicate 32 7) (VNumber (Finite (3 / 2))) (Some ''s'')
     = Inl RangeError \<and>
   map_sum id (\<lambda>c. map_sum id revealValid
                 (commit_reveal demo_oracle demo_Number (commitment c) (VNumber (Finite 5)) ''''))
     (commit_create demo_oracle demo_Number (replicate 32 7) (VNumber (Finite 5)) (Some ''''))
     = Inr (Inr False)"
  by code_simp

text \<open>
  Claim C4, as amended. For a non-empty secret and values \<open>value\<close>, \<open>value'\<close> that
  \<open>valueToFieldElement\<close> encodes, \<open>commit.reveal\<close> on the commitment of \<open>value\<close> returns
  \<open>valid = true\<close> for \<open>value'\<close> exactly when the oracle gives the encodings of the two values
  the same digest under the salt of the secret: a different value with the same encoding
  opens the commitment, and a value whose digest differs does not.
\<close>

theorem commit_binding:
  assumes "secret \<noteq> []" and "valueToFieldElement toNumber v = Inr f"
    and "valueToFieldElement toNumber v' = Inr f'"
  shows "\<exists>c s r. commit_create H toNumber rnd v (Some secret) = Inr c \<and>
           hexToFieldElement (saltOfSecret secret) = Inr s \<and>
           commit_reveal H toNumber (commitment c) v' secret = Inr r \<and>
           (revealValid r \<longleftrightarrow> H [f', s] = H [f, s])"
proof -
  obtain s where s: "hexToFieldElement (saltOfSecret secret) = Inr s"
    using saltOfSecret_parses by blast
  have 1: "commit_create H toNumber rnd v (Some secret) =
             Inr \<lparr> commitment = toHex (H [f, s]), commitSalt = saltOfSecret secret \<rparr>"
    using assms s by (simp add: commit_create_def)
  have 2: "commit_reveal H toNumber (toHex (H [f, s])) v' secret =
             Inr \<lparr> revealValid = (H [f', s] = H [f, s]), revealCommitment = toHex (H [f, s]),
                   revealSalt = saltOfSecret secret \<rparr>"
    using assms s by (simp add: commit_reveal_def toHex_eq_iff)
  from 1 2 s show ?thesis by simp
qed

theorem commit_binding_witness:
  "\<exists>c s r. commit_create demo_oracle demo_Number (replicate 32 7) (VString ''7'') (Some ''s'') = Inr c \<and>
      hexToFieldElement (saltOfSecret ''s'') = Inr s \<and>
      commit_reveal demo_oracle demo_Number (commitment c) (VString ''8'') ''s'' = Inr r \<and>
      (revealValid r \<longleftrightarrow> demo_oracle [8, s] = demo_oracle [7, s])"
proof -
  have 1: "''s'' \<noteq> []" by simp
  have 2: "valueToFieldElement demo_Number (VString ''7'') = Inr 7"
    by code_simp
  have 3: "valueToFieldElement demo_Number (VString ''8'') = Inr 8"
    by code_simp
  from commit_binding[OF 1 2 3, of demo_oracle "replicate 32 7"] show ?thesis .
qed

theorem commit_binding_counterexample:
  "VString ''0x1'' \<noteq> VString ''0x01'' \<and>
   map_sum id (\<lambda>c. map_sum id revealValid
                 (commit_reveal demo_oracle demo_Number (commitment c) (VString ''0x01'') ''s''))
     (commit_create demo_oracle demo_Number (replicate 32 7) (VString ''0x1'') (Some ''s''))
     = Inr (Inr True) \<and>
   VString ''abcdefghijklmnopqrstuvwxyzabcdeX'' \<noteq> VString ''abcdefghijklmnopqrstuvwxyzabcdeY'' \<and>
   map_sum id (\<lambda>c. map_sum id revealValid
                 (commit_reveal demo_oracle demo_Number (commitment c)
                    (VString ''abcdefghijklmnopqrstuvwxyzabcdeY'') ''s''))
     (commit_create demo_oracle demo_Number (replicate 32 7)
        (VString ''abcdefghijklmnopqrstuvwxyzabcdeX'') (Some ''s''))
     = Inr (Inr True)"
  by code_simp

subsection \<open>String encoding\<close>

text \<open>
  Claim C7, as amended. For a string that does not start with \<open>0x\<close>, the
  \<open>stringToFieldElement\<close> of the Merkle, nullifier and hash modules gives the big-endian
  base-256 value of the first 31 bytes, so strings that agree on their first 31 bytes are
  encoded alike there. The commitment module's \<open>valueToFieldElement\<close> gives that value
  only for a string that \<open>Number\<close> does not read as a finite number; a string it reads as
  the finite number \<open>q\<close> is encoded as the floor of \<open>q\<close>.
\<close>

theorem string_encoding:
  assumes "take 2 s \<noteq> ''0x''"
  shows "stringToFieldElement s = Inr (bigEndianValue (take 31 s)) \<and>
         nullifier_stringToFieldElement s = Inr (bigEndianValue (take 31 s)) \<and>
         hash_stringToFieldElement s = bigEndianValue (take 31 s) \<and>
         (take 31 t = take 31 s \<longrightarrow>
            stringToFieldElement t = stringToFieldElement s \<and>
            nullifier_stringToFieldElement t = nullifier_stringToFieldElement s \<and>
            hash_stringToFieldElement t = hash_stringToFieldElement s) \<and>
         ((\<forall>q. toNumber s \<noteq> Finite q) \<longrightarrow>
            valueToFieldElement toNumber (VString s) = Inr (bigEndianValue (take 31 s))) \<and>
         (\<forall>q. toNumber s = Finite q \<longrightarrow> valueToFieldElement toNumber (VString s) = Inr \<lfloor>q\<rfloor>)"
proof -
  have 1: "stringToFieldElement s = Inr (bigEndianValue (take 31 s))"
    using assms by (simp add: stringToFieldElement_def accumulateBytes_bigEndian)
  have 2: "hash_stringToFieldElement s = bigEndianValue (take 31 s)"
    by (simp add: hash_stringToFieldElement_def accumulateBytes_bigEndian)
  have n1: "nullifier_stringToFieldElement s = Inr (bigEndianValue (take 31 s))"
    using assms by (simp add: nullifier_stringToFieldElement_def accumulateBytes_bigEndian)
  have 3: "stringToFieldElement t = stringToFieldElement s \<and>
           nullifier_stringToFieldElement t = nullifier_stringToFieldElement s \<and>
           hash_stringToFieldElement t = hash_stringToFieldElement s" if "take 31 t = take 31 s"
  proof -
    have "take 2 (take 31 t) = take 2 t" and "take 2 (take 31 s) = take 2 s" by simp_all
    with that have "take 2 t = take 2 s" by metis
    with assms show ?thesis
      by (simp add: stringToFieldElement_def nullifier_stringToFieldElement_def
            hash_stringToFieldElement_def accumulateBytes_take[OF that])
  qed
  have 4: "valueToFieldElement toNumber (VString s) = Inr (bigEndianValue (take 31 s))"
    if "\<forall>q. toNumber s \<noteq> Finite q"
    using assms that
    by (cases "toNumber s") (simp_all add: valueToFieldElement_def accumulateBytes_bigEndian)
  have 5: "valueToFieldElement toNumber (VString s) = Inr \<lfloor>q\<rfloor>" if "toNumber s = Finite q" for q
    using assms that by (simp add: valueToFieldElement_def)
  from 1 n1 2 3 4 5 show ?thesis by blast
qed

theorem string_encoding_witness:
  "stringToFieldElement ''alice'' = Inr (bigEndianValue (take 31 ''alice'')) \<and>
   nullifier_stringToFieldElement ''alice'' = Inr (bigEndianValue (take 31 ''alice'')) \<and>
   hash_stringToFieldElement ''alice'' = bigEndianValue (take 31 ''alice'') \<and>
   valueToFieldElement demo_Number (VString ''alice'') = Inr (bigEndianValue (take 31 ''alice'')) \<and>
   bigEndianValue (take 31 ''alice'') = 418430673765"
proof -
  have 1: "take 2 ''alice'' \<noteq> ''0x''" by simp
  have 2: "\<forall>q. demo_Number ''alice'' \<noteq> Finite q" by (simp add: demo_Number_def digitValue_def)
  have 3: "bigEndianValue (take 31 ''alice'') = 418430673765"
    by code_simp
  from string_encoding[OF 1, of "''alice''" demo_Number] 2 3 show ?thesis by simp
qed

theorem string_encoding_counterexample:
  "valueToFieldElement demo_Number (VString ''100'') = Inr 100 \<and>
   bigEndianValue (take 31 ''100'') = 3223600 \<and>
   take 31 ''0000000000000000000000000000000100'' = take 31 ''0000000000000000000000000000000200'' \<and>
   valueToFieldElement demo_Number (VString ''0000000000000000000000000000000100'') = Inr 100 \<and>
   valueToFieldElement demo_Number (VString ''0000000000000000000000000000000200'') = Inr 200"
  by code_simp

subsection \<open>Nullifier sets\<close>

text \<open>
  Claim C8. The method \<open>toLowerCase\<close> is the parameter \<open>toLower\<close>, any function on
  strings, so that the statement holds for the built-in one; two values are the same up
  to case when it maps them to the same string. \<open>addToSet(set, n)\<close> returns \<open>true\<close> when the lower-cased \<open>n\<close> is not in the set,
  as on the first call on a new set, and then holds it; after that, whatever other
  \<open>addToSet\<close> calls come in between, a call with a value that is the same up to case
  returns \<open>false\<close>. The set is changed only by a call that returns \<open>true\<close>, and \<open>isInSet\<close>
  answers membership of the lower-cased value and leaves the set as it is.
\<close>

theorem nullifier_double_spend:
  "(\<not> fst (nullifier_isInSet toLower s n) \<longrightarrow> fst (nullifier_addToSet toLower s n)) \<and>
   fst (nullifier_addToSet toLower (nullifier_createSet sc) n) \<and>
   (toLower n' = toLower n \<longrightarrow>
      (let s' = snd (addAll toLower (snd (nullifier_addToSet toLower s n)) ms)
       in nullifier_addToSet toLower s' n' = (False, s'))) \<and>
   (fst (nullifier_addToSet toLower s n) \<longrightarrow>
      snd (nullifier_addToSet toLower s n) =
        s \<lparr> nullifiers := finsert (toLower n) (nullifiers s),
            setSize := fcard (finsert (toLower n) (nullifiers s)) \<rparr>) \<and>
   (\<not> fst (nullifier_addToSet toLower s n) \<longrightarrow> snd (nullifier_addToSet toLower s n) = s) \<and>
   nullifier_isInSet toLower s n = (toLower n |\<in>| nullifiers s, s)"
proof -
  have later: "nullifier_addToSet toLower s' n' = (False, s')"
    if "toLower n' = toLower n" and "s' = snd (addAll toLower (snd (nullifier_addToSet toLower s n)) ms)"
    for s'
  proof -
    have "toLower n |\<in>| nullifiers s'"
      unfolding that(2) by (intro addAll_member addToSet_added)
    with that(1) show ?thesis by (simp add: nullifier_addToSet_def)
  qed
  show ?thesis
    using later
    by (simp add: nullifier_addToSet_def nullifier_isInSet_def nullifier_createSet_def Let_def)
qed

theorem nullifier_double_spend_witness:
  "fst (nullifier_addToSet toLowerCase (nullifier_createSet ''election'') ''0xAB'') \<and>
   nullifier_addToSet toLowerCase
     (snd (addAll toLowerCase (snd (nullifier_addToSet toLowerCase (nullifier_createSet ''election'') ''0xAB'')) [''0xcd'']))
     ''0xab''
   = (False,
      snd (addAll toLowerCase (snd (nullifier_addToSet toLowerCase (nullifier_createSet ''election'') ''0xAB'')) [''0xcd''])) \<and>
   fst (addAll toLowerCase (nullifier_createSet ''election'') [''0xAB'', ''0xcd'', ''0xab'', ''0xCD''])
     = [True, True, False, False]"
proof -
  have 1: "\<not> fst (nullifier_isInSet toLowerCase (nullifier_createSet ''election'') ''0xAB'')"
    by (simp add: nullifier_isInSet_def nullifier_createSet_def)
  have 2: "toLowerCase ''0xab'' = toLowerCase ''0xAB''" by code_simp
  have 3: "fst (addAll toLowerCase (nullifier_createSet ''election'') [''0xAB'', ''0xcd'', ''0xab'', ''0xCD''])
             = [True, True, False, False]"
    by code_simp
  note T = nullifier_double_spend[of toLowerCase "nullifier_createSet ''election''" "''0xAB''" "''election''"
         "''0xab''" "[''0xcd'']"]
  from T 1 have a: "fst (nullifier_addToSet toLowerCase (nullifier_createSet ''election'') ''0xAB'')"
    by blast
  from T 2 have "let s' = snd (addAll toLowerCase (snd (nullifier_addToSet toLowerCase (nullifier_createSet ''election'')
                     ''0xAB'')) [''0xcd''])
                 in nullifier_addToSet toLowerCase s' ''0xab'' = (False, s')"
    by blast
  then have b: "nullifier_addToSet toLowerCase
     (snd (addAll toLowerCase (snd (nullifier_addToSet toLowerCase (nullifier_createSet ''election'') ''0xAB'')) [''0xcd'']))
     ''0xab''
   = (False,
      snd (addAll toLowerCase (snd (nullifier_addToSet toLowerCase (nullifier_createSet ''election'') ''0xAB'')) [''0xcd'']))"
    unfolding Let_def .
  from a b 3 show ?thesis by (intro conjI)
qed

end
